theory Spec2Isabelle
  imports Complex_Main "HOL-Library.Sublist" "HOL-Library.Multiset"
begin

section \<open>Data model\<close>

text \<open>
  The automaton of \<^verbatim>\<open>timed_automaton.hh\<close> as the two source files use it.
  A clock variable and an action are indices; a state is referred to by its address
  (\<^verbatim>\<open>TAState *\<close>), and the objects live in a store that maps every address to the
  state found there, so that \<^verbatim>\<open>transition.target->isMatch\<close> and
  \<^verbatim>\<open>transition.target->next\<close> are reads of the store. Every address is taken to
  hold a state, as the source takes every pointer it follows to be valid. The map
  \<^verbatim>\<open>next\<close> from actions to vectors of transitions is a list of pairs with one entry
  for each action; the field is \<open>next'\<close> here, \<open>next\<close> being a word of the proof
  language.
\<close>

type_synonym ClockVariables = nat
type_synonym Alphabet = char
type_synonym StateAddr = nat

text \<open>
  A constraint compares one clock with an integer constant, as the sources build them
  (\<^verbatim>\<open>x >= SA\<close>, \<^verbatim>\<open>z < TRTT\<close>, \<^verbatim>\<open>y <= SA\<close> from a
  \<^verbatim>\<open>ConstraintMaker\<close>) and read them (\<^verbatim>\<open>constraint.x\<close>,
  \<^verbatim>\<open>constraint.isUpperBound()\<close>). The fields \<^verbatim>\<open>x\<close> and \<^verbatim>\<open>c\<close> of the
  source are \<open>clock_x\<close> and \<open>bound_c\<close> here.
\<close>

datatype Order = lt | le | ge | gt

record Constraint =
  clock_x :: ClockVariables
  odr :: Order
  bound_c :: int

text \<open>
  Modelled from the spec: \<^verbatim>\<open>Constraint::isUpperBound\<close>, whose declaration is not among
  the sources. An upper bound is a constraint \<open>x < c\<close> or \<open>x \<le> c\<close>.
\<close>

definition isUpperBound :: "Constraint \<Rightarrow> bool" where
  "isUpperBound k = (odr k = lt \<or> odr k = le)"

text \<open>
  A reset assigns to a clock either a constant (alternative 0 of the variant, a
  \<^verbatim>\<open>double\<close>, taken here as the real number a finite double denotes) or the value of
  another clock (alternative 1).
\<close>

datatype ResetValue = Constant real | Clock ClockVariables

type_synonym Resets = "(ClockVariables \<times> ResetValue) list"

record TATransition =
  target :: StateAddr
  resetVars :: Resets
  guard :: "Constraint list"

record TAState =
  isMatch :: bool
  next' :: "(Alphabet \<times> TATransition list) list"

type_synonym Store = "StateAddr \<Rightarrow> TAState"

text \<open>
  The guard algebra (\<^verbatim>\<open>isWeaker\<close>, \<^verbatim>\<open>satisfiable\<close>, \<^verbatim>\<open>conjunction\<close>,
  \<^verbatim>\<open>unionHull\<close>) and \<^verbatim>\<open>TATransition::impreciseConstantAssignSize\<close> are called by
  the sources but defined elsewhere. The functions below take them as a parameter, so that
  what is proved of the source functions holds for every implementation of the helpers.
\<close>

record GuardOps =
  isWeaker :: "Constraint list \<Rightarrow> Constraint list \<Rightarrow> bool"
  satisfiable :: "Constraint list \<Rightarrow> bool"
  conjunction :: "Constraint list \<Rightarrow> Constraint list \<Rightarrow> Constraint list"
  unionHull :: "Constraint list list \<Rightarrow> Constraint list"
  impreciseConstantAssignSize :: "Resets \<Rightarrow> nat"

section \<open>\<^verbatim>\<open>TAState::deterministic\<close>\<close>

text \<open>
  The loop over \<^verbatim>\<open>it\<close> of one action's transitions: \<open>before\<close> is the range
  \<^verbatim>\<open>[transitions.begin(), it)\<close>, the second list starts at \<^verbatim>\<open>it\<close>.
\<close>

fun deterministicTransitions ::
  "GuardOps \<Rightarrow> TATransition list \<Rightarrow> TATransition list \<Rightarrow> bool" where
  "deterministicTransitions G before [] = True"
| "deterministicTransitions G before (it # rest) =
     (if list_ex (\<lambda>transition. satisfiable G (conjunction G (guard transition) (guard it))) before
      then False
      else deterministicTransitions G (before @ [it]) rest)"

definition deterministic :: "GuardOps \<Rightarrow> TAState \<Rightarrow> bool" where
  "deterministic G s = list_all (\<lambda>(action, transitions). deterministicTransitions G [] transitions) (next' s)"

section \<open>\<^verbatim>\<open>TAState::mergeNondeterministicBranching\<close>\<close>

text \<open>
  What \<^verbatim>\<open>assert\<close> does depends on the build, and the sources provide for both
  (\<^verbatim>\<open>#ifdef NDEBUG\<close> in the examples). The build is the parameter \<open>ndebug\<close> of the
  operation: when \<^verbatim>\<open>NDEBUG\<close> is not defined (\<open>ndebug\<close> false) a failed assertion aborts
  the operation, which is the result \<open>Inl AssertionFailed\<close>; when it is defined the
  assertion is compiled out and the statements after it are executed.
\<close>

datatype error = AssertionFailed

text \<open>
  The first loop (``Remove weaker guards''). \<open>kept\<close> holds the transitions before
  \<^verbatim>\<open>it2\<close> that were not erased, the second list starts at \<^verbatim>\<open>it2\<close>; the
  \<^verbatim>\<open>std::any_of\<close> ranges over the whole current vector, which is \<open>kept @ it2 # rest\<close>.
  \<^verbatim>\<open>*it2 != transition\<close> uses the comparison of \<^verbatim>\<open>TATransition\<close>, declared in
  \<^verbatim>\<open>timed_automaton.hh\<close>; it is taken to compare the transitions as values (target
  address, reset map and guard).
\<close>

fun removeWeaker :: "GuardOps \<Rightarrow> TATransition list \<Rightarrow> TATransition list \<Rightarrow> TATransition list" where
  "removeWeaker G kept [] = kept"
| "removeWeaker G kept (it2 # rest) =
     (if list_ex (\<lambda>transition. it2 \<noteq> transition \<and> isWeaker G (guard transition) (guard it2) \<and>
                                 target transition = target it2) (kept @ it2 # rest)
      then removeWeaker G kept rest
      else removeWeaker G (kept @ [it2]) rest)"

text \<open>
  The predicate of the \<^verbatim>\<open>std::any_of\<close> in the first loop, for \<^verbatim>\<open>*it2\<close> being
  \<open>this\<close> and the element of the range being \<open>other\<close>. Nothing is lost by leaving
  \<open>this\<close> itself out of the range, since it is not different from itself.
\<close>

definition subsumes :: "GuardOps \<Rightarrow> TATransition \<Rightarrow> TATransition \<Rightarrow> bool" where
  "subsumes G other this =
     (this \<noteq> other \<and> isWeaker G (guard other) (guard this) \<and> target other = target this)"

text \<open>
  The body of the merge, once the assertion has passed: \<^verbatim>\<open>it2\<close> takes the reset map
  and the target of \<^verbatim>\<open>it3\<close> when \<^verbatim>\<open>it3\<close> has more imprecise constant
  assignments, and its guard becomes the union hull of the two guards.
\<close>

definition mergePair :: "GuardOps \<Rightarrow> TATransition \<Rightarrow> TATransition \<Rightarrow> TATransition" where
  "mergePair G it2 it3 =
     (let it2' = (if impreciseConstantAssignSize G (resetVars it2) < impreciseConstantAssignSize G (resetVars it3)
                  then it2\<lparr>resetVars := resetVars it3, target := target it3\<rparr>
                  else it2)
      in it2'\<lparr>guard := unionHull G [guard it2', guard it3]\<rparr>)"

text \<open>
  The inner loop over \<^verbatim>\<open>it3\<close> for a fixed \<^verbatim>\<open>it2\<close>: the result is the final value
  of \<^verbatim>\<open>*it2\<close> and what is left of the transitions after it.
\<close>

fun mergeInto ::
  "bool \<Rightarrow> GuardOps \<Rightarrow> Store \<Rightarrow> TATransition \<Rightarrow> TATransition list \<Rightarrow>
   error + (TATransition \<times> TATransition list)" where
  "mergeInto ndebug G st it2 [] = Inr (it2, [])"
| "mergeInto ndebug G st it2 (it3 # rest) =
     (if satisfiable G (conjunction G (guard it2) (guard it3)) then
        (if ndebug \<or> isMatch (st (target it2)) = isMatch (st (target it3))
         then mergeInto ndebug G st (mergePair G it2 it3) rest
         else Inl AssertionFailed)
      else (case mergeInto ndebug G st it2 rest of
              Inl e \<Rightarrow> Inl e
            | Inr (it2', rest') \<Rightarrow> Inr (it2', it3 # rest')))"

lemma mergeInto_length:
  "mergeInto ndebug G st it2 ts = Inr (it2', ts') \<Longrightarrow> length ts' \<le> length ts"
proof (induction ts arbitrary: it2 it2' ts')
  case Nil
  then show ?case by simp
next
  case (Cons it3 rest)
  show ?case
  proof (cases "satisfiable G (conjunction G (guard it2) (guard it3))")
    case True
    with Cons.prems have "mergeInto ndebug G st (mergePair G it2 it3) rest = Inr (it2', ts')"
      by (simp split: if_splits)
    from Cons.IH [OF this] show ?thesis by simp
  next
    case False
    with Cons.prems obtain r where r: "mergeInto ndebug G st it2 rest = Inr (it2', r)"
      and "ts' = it3 # r"
      by (auto split: sum.splits)
    with Cons.IH [OF r] show ?thesis by simp
  qed
qed

text \<open>The outer loop over \<^verbatim>\<open>it2\<close>.\<close>

function mergePairs :: "bool \<Rightarrow> GuardOps \<Rightarrow> Store \<Rightarrow> TATransition list \<Rightarrow> error + TATransition list" where
  "mergePairs ndebug G st [] = Inr []"
| "mergePairs ndebug G st (it2 # rest) =
     (case mergeInto ndebug G st it2 rest of
        Inl e \<Rightarrow> Inl e
      | Inr (it2', rest') \<Rightarrow>
          (case mergePairs ndebug G st rest' of
             Inl e \<Rightarrow> Inl e
           | Inr merged \<Rightarrow> Inr (it2' # merged)))"
  by pat_completeness auto
termination
proof (relation "measure (\<lambda>(ndebug, G, st, ts). length ts)")
  show "wf (measure (\<lambda>(ndebug, G, st, ts). length ts))" by simp
next
  fix ndebug G st it2 rest x2 x y
  assume "mergeInto ndebug G st it2 rest = Inr x2" and "(x, y) = x2"
  then have "mergeInto ndebug G st it2 rest = Inr (x, y)" by simp
  from mergeInto_length [OF this]
  show "((ndebug, G, st, y), (ndebug, G, st, it2 # rest)) \<in> measure (\<lambda>(ndebug, G, st, ts). length ts)"
    by simp
qed

text \<open>The body of the loop over the actions: both loops on one action's transitions.\<close>

definition mergeTransitions ::
  "bool \<Rightarrow> GuardOps \<Rightarrow> Store \<Rightarrow> TATransition list \<Rightarrow> error + TATransition list" where
  "mergeTransitions ndebug G st transitions = mergePairs ndebug G st (removeWeaker G [] transitions)"

fun mergeActions ::
  "bool \<Rightarrow> GuardOps \<Rightarrow> Store \<Rightarrow> (Alphabet \<times> TATransition list) list \<Rightarrow>
   error + (Alphabet \<times> TATransition list) list" where
  "mergeActions ndebug G st [] = Inr []"
| "mergeActions ndebug G st ((action, transitions) # rest) =
     (case mergeTransitions ndebug G st transitions of
        Inl e \<Rightarrow> Inl e
      | Inr transitions' \<Rightarrow>
          (case mergeActions ndebug G st rest of
             Inl e \<Rightarrow> Inl e
           | Inr rest' \<Rightarrow> Inr ((action, transitions') # rest')))"

definition mergeNondeterministicBranching ::
  "bool \<Rightarrow> GuardOps \<Rightarrow> Store \<Rightarrow> TAState \<Rightarrow> error + TAState" where
  "mergeNondeterministicBranching ndebug G st this =
     (case mergeActions ndebug G st (next' this) of
        Inl e \<Rightarrow> Inl e
      | Inr n \<Rightarrow> Inr (this\<lparr>next' := n\<rparr>))"

text \<open>
  The pairs of \<^verbatim>\<open>*it2\<close> and \<^verbatim>\<open>*it3\<close> at which the second loop finds
  \<^verbatim>\<open>satisfiable(conjunction(it2->guard, it3->guard))\<close> true and so reaches the
  assertion: \<open>encounterInto\<close> for one run of the inner loop, \<open>encounter\<close> for the outer
  loop. \<^verbatim>\<open>*it2\<close> is taken with the value it has at that moment, after the merges made
  into it; a further pair is only reached when the assertion of the earlier ones passed or
  was compiled out.
\<close>

inductive encounterInto ::
  "bool \<Rightarrow> GuardOps \<Rightarrow> Store \<Rightarrow> TATransition \<Rightarrow> TATransition list \<Rightarrow>
   TATransition \<times> TATransition \<Rightarrow> bool"
  for ndebug :: bool and G :: GuardOps and st :: Store where
  found: "satisfiable G (conjunction G (guard it2) (guard it3)) \<Longrightarrow>
            encounterInto ndebug G st it2 (it3 # rest) (it2, it3)"
| merged: "satisfiable G (conjunction G (guard it2) (guard it3)) \<Longrightarrow>
            ndebug \<or> isMatch (st (target it2)) = isMatch (st (target it3)) \<Longrightarrow>
            encounterInto ndebug G st (mergePair G it2 it3) rest p \<Longrightarrow>
            encounterInto ndebug G st it2 (it3 # rest) p"
| skipped: "\<not> satisfiable G (conjunction G (guard it2) (guard it3)) \<Longrightarrow>
            encounterInto ndebug G st it2 rest p \<Longrightarrow>
            encounterInto ndebug G st it2 (it3 # rest) p"

inductive encounter ::
  "bool \<Rightarrow> GuardOps \<Rightarrow> Store \<Rightarrow> TATransition list \<Rightarrow> TATransition \<times> TATransition \<Rightarrow> bool"
  for ndebug :: bool and G :: GuardOps and st :: Store where
  inner: "encounterInto ndebug G st it2 rest p \<Longrightarrow> encounter ndebug G st (it2 # rest) p"
| outer: "mergeInto ndebug G st it2 rest = Inr (it2', rest') \<Longrightarrow> encounter ndebug G st rest' p \<Longrightarrow>
            encounter ndebug G st (it2 # rest) p"

text \<open>
  The first loop told by positions, to compare the loop with: the transition at the
  position \<open>i\<close> of the vector is dropped when another position \<open>j\<close> holds a transition
  that differs from it as a value, has the same target and a guard for which
  \<^verbatim>\<open>isWeaker\<close> holds against its guard, where \<open>j\<close> is either after \<open>i\<close> or before
  \<open>i\<close> and not dropped itself.
\<close>

definition subsumedBy :: "GuardOps \<Rightarrow> TATransition list \<Rightarrow> nat \<Rightarrow> nat \<Rightarrow> bool" where
  "subsumedBy G ts i j =
     (ts ! i \<noteq> ts ! j \<and> isWeaker G (guard (ts ! j)) (guard (ts ! i)) \<and> target (ts ! j) = target (ts ! i))"

fun dropped :: "GuardOps \<Rightarrow> TATransition list \<Rightarrow> nat \<Rightarrow> bool" where
  "dropped G ts i =
     (list_ex (\<lambda>j. subsumedBy G ts i j) [Suc i..<length ts] \<or>
      list_ex (\<lambda>j. \<not> dropped G ts j \<and> subsumedBy G ts i j) [0..<i])"

declare dropped.simps [simp del]

text \<open>The transitions at the first \<open>n\<close> positions that are not dropped, in their order.\<close>

definition survivors :: "GuardOps \<Rightarrow> TATransition list \<Rightarrow> nat \<Rightarrow> TATransition list" where
  "survivors G ts n = map ((!) ts) (filter (\<lambda>i. \<not> dropped G ts i) [0..<n])"

text \<open>
  The second loop told by its result, to compare the loop with. A group is a transition
  and the transitions merged into it, in the order of the merges; \<open>mergedGroup\<close> is what
  the group becomes. The members of a group are \<open>absorbedInTurn\<close> when each had a guard
  jointly satisfiable with the guard the group had reached before it, and a target
  agreeing on \<^verbatim>\<open>isMatch\<close> unless the assertion is compiled out. A transition is
  \<open>passedOver\<close> by a group when at some stage of the group its guard was not jointly
  satisfiable with the guard the group had reached. \<open>hullKeepsOverlap\<close> says of a guard
  algebra that a guard widened by \<^verbatim>\<open>unionHull\<close> stays jointly satisfiable with what the
  guard was jointly satisfiable with.
\<close>

definition members :: "TATransition \<times> TATransition list \<Rightarrow> TATransition list" where
  "members grp = fst grp # snd grp"

definition mergedGroup :: "GuardOps \<Rightarrow> TATransition \<times> TATransition list \<Rightarrow> TATransition" where
  "mergedGroup G grp = foldl (mergePair G) (fst grp) (snd grp)"

definition absorbedInTurn :: "bool \<Rightarrow> GuardOps \<Rightarrow> Store \<Rightarrow> TATransition \<times> TATransition list \<Rightarrow> bool" where
  "absorbedInTurn ndebug G st grp =
     list_all (\<lambda>k.
        satisfiable G (conjunction G (guard (mergedGroup G (fst grp, take k (snd grp))))
                                     (guard (snd grp ! k))) \<and>
        (ndebug \<or> isMatch (st (target (mergedGroup G (fst grp, take k (snd grp))))) =
                   isMatch (st (target (snd grp ! k)))))
       [0..<length (snd grp)]"

definition passedOver :: "GuardOps \<Rightarrow> TATransition \<times> TATransition list \<Rightarrow> TATransition \<Rightarrow> bool" where
  "passedOver G grp x =
     list_ex (\<lambda>k.
        \<not> satisfiable G (conjunction G (guard (mergedGroup G (fst grp, take k (snd grp)))) (guard x)))
       [0..<Suc (length (snd grp))]"

definition hullKeepsOverlap :: "GuardOps \<Rightarrow> bool" where
  "hullKeepsOverlap G \<longleftrightarrow>
     (\<forall>g g' h. satisfiable G (conjunction G g h) \<longrightarrow>
                satisfiable G (conjunction G (unionHull G [g, g']) h))"

text \<open>
  The second loop told one transition at a time, to compare the loop with: the
  transitions are taken in the order of the vector, and each is merged into the first of
  the transitions kept so far whose guard, as the merges made into it so far have left
  it, is jointly satisfiable with its guard; when there is none it is kept itself, after
  the others. \<open>firstFit\<close> places one transition, and the whole vector is placed by
  \<open>foldl (firstFit G) []\<close>.
\<close>

fun firstFit :: "GuardOps \<Rightarrow> TATransition list \<Rightarrow> TATransition \<Rightarrow> TATransition list" where
  "firstFit G [] y = [y]"
| "firstFit G (g # cur) y =
     (if satisfiable G (conjunction G (guard g) (guard y))
      then mergePair G g y # cur
      else g # firstFit G cur y)"

section \<open>\<^verbatim>\<open>ImpreciseClockHandler\<close>\<close>

text \<open>
  \<^verbatim>\<open>NeighborConditions\<close> is declared in a header that is not among the sources. Its
  values are the type parameter \<open>'n\<close>, and the member functions the handler calls are a
  parameter; \<open>hash_value\<close> is \<^verbatim>\<open>boost::hash_value\<close> on a pair of a state and a
  neighbor condition.
\<close>

record 'n NeighborOps =
  match :: "'n \<Rightarrow> TATransition \<Rightarrow> bool"
  toRelaxedGuard :: "'n \<Rightarrow> Constraint list"
  getClockSize :: "'n \<Rightarrow> nat"
  impreciseClocks :: "'n \<Rightarrow> ClockVariables list"
  makeAfterExternalTransition :: "'n \<Rightarrow> Resets \<Rightarrow> nat \<Rightarrow> 'n"
  successor :: "'n \<Rightarrow> Alphabet \<Rightarrow> 'n"
  successorAssign :: "'n \<Rightarrow> 'n"
  hash_value :: "StateAddr \<times> 'n \<Rightarrow> nat"

subsection \<open>\<^verbatim>\<open>handleOne\<close>\<close>

text \<open>Lines 34 to 45: the guard proposed for a matched transition.\<close>

definition upperBounded :: "TATransition \<Rightarrow> bool" where
  "upperBounded transition = list_ex isUpperBound (guard transition)"

definition relaxedGuardOf :: "'n NeighborOps \<Rightarrow> 'n \<Rightarrow> TATransition \<Rightarrow> Constraint list" where
  "relaxedGuardOf N neighbor transition =
     (if \<not> upperBounded transition
      then filter (\<lambda>constraint. \<not> isUpperBound constraint) (toRelaxedGuard N neighbor)
      else toRelaxedGuard N neighbor)"

text \<open>Line 47: the test under which the relaxation is taken.\<close>

definition accepted :: "GuardOps \<Rightarrow> 'n NeighborOps \<Rightarrow> 'n \<Rightarrow> TATransition \<Rightarrow> bool" where
  "accepted G N neighbor transition =
     (isWeaker G (relaxedGuardOf N neighbor transition) (guard transition) \<and>
      \<not> isWeaker G (guard transition) (relaxedGuardOf N neighbor transition))"

text \<open>Lines 54 to 57: the shape of an internal transition.\<close>

definition isInternal :: "'n NeighborOps \<Rightarrow> 'n \<Rightarrow> TATransition \<Rightarrow> bool" where
  "isInternal N neighbor transition =
     (case resetVars transition of
        [(clock, Constant d)] \<Rightarrow> clock = getClockSize N neighbor \<and> d = 0
      | _ \<Rightarrow> False)"

text \<open>Lines 62 to 69: one more than the largest clock in a guard leaving the target.\<close>

definition targetClockSizeOf :: "Store \<Rightarrow> TATransition \<Rightarrow> nat" where
  "targetClockSizeOf st transition =
     fold (\<lambda>(action, transitions) size.
             fold (\<lambda>cTransition size.
                     fold (\<lambda>constraint size. max size (clock_x constraint + 1)) (guard cTransition) size)
                  transitions size)
          (next' (st (target transition))) 0"

definition isConstant :: "ResetValue \<Rightarrow> bool" where
  "isConstant v = (case v of Constant d \<Rightarrow> True | Clock y \<Rightarrow> False)"

text \<open>Lines 71 to 74.\<close>

definition allConstant :: "TATransition \<Rightarrow> nat \<Rightarrow> bool" where
  "allConstant transition targetClockSize =
     (targetClockSize \<le> length (resetVars transition) \<and>
      list_all (\<lambda>pair. isConstant (snd pair)) (resetVars transition))"

text \<open>
  Lines 79 to 93. \<open>it\<close> and \<open>it2\<close> are the two \<^verbatim>\<open>std::find_if\<close>: a reset of the
  clock to another clock or to a constant that is its own floor, and a reset that reads
  the clock.
\<close>

definition overwritten :: "TATransition \<Rightarrow> ClockVariables \<Rightarrow> bool" where
  "overwritten transition clock =
     (let it = find (\<lambda>pair. fst pair = clock \<and>
                       (case snd pair of Clock y \<Rightarrow> True | Constant d \<Rightarrow> d = of_int \<lfloor>d\<rfloor>))
                    (resetVars transition);
          it2 = find (\<lambda>pair. case snd pair of Clock y \<Rightarrow> y = clock | Constant d \<Rightarrow> False)
                     (resetVars transition)
      in it \<noteq> None \<and> it2 = None)"

definition allOverwritten :: "'n NeighborOps \<Rightarrow> 'n \<Rightarrow> TATransition \<Rightarrow> bool" where
  "allOverwritten N neighbor transition =
     list_all (overwritten transition) (impreciseClocks N neighbor)"

text \<open>
  \<^verbatim>\<open>handleOne\<close>. The three reference parameters \<^verbatim>\<open>newTransitions\<close>,
  \<^verbatim>\<open>matchBounded\<close> and \<^verbatim>\<open>noMatch\<close> are passed in and returned after the optional
  result.
\<close>

definition handleOne ::
  "GuardOps \<Rightarrow> 'n NeighborOps \<Rightarrow> Store \<Rightarrow> 'n \<Rightarrow> TATransition \<Rightarrow> 'n \<Rightarrow>
   TATransition list \<Rightarrow> bool \<Rightarrow> bool \<Rightarrow>
   (StateAddr \<times> 'n) option \<times> TATransition list \<times> bool \<times> bool" where
  "handleOne G N st neighbor transition neighborSuccessor newTransitions matchBounded noMatch =
     (if match N neighbor transition then
        (let matchBounded' = (matchBounded \<or> upperBounded transition);
             relaxedGuard = relaxedGuardOf N neighbor transition
         in if isWeaker G relaxedGuard (guard transition) \<and> \<not> isWeaker G (guard transition) relaxedGuard then
              (let newTransitions' = newTransitions @
                     [\<lparr>target = target transition, resetVars = resetVars transition, guard = relaxedGuard\<rparr>]
               in if isInternal N neighbor transition then
                    (Some (target transition, neighborSuccessor), newTransitions', matchBounded', False)
                  else
                    (let targetClockSize = targetClockSizeOf st transition
                     in if allConstant transition targetClockSize then
                          (None, newTransitions', matchBounded', False)
                        else if allOverwritten N neighbor transition then
                          (None, newTransitions', matchBounded', False)
                        else
                          (Some (target transition,
                                 makeAfterExternalTransition N neighbor (resetVars transition) targetClockSize),
                           newTransitions', matchBounded', False)))
            else (None, newTransitions, matchBounded', False))
      else (None, newTransitions, matchBounded, noMatch))"


subsection \<open>\<^verbatim>\<open>run\<close>\<close>









section \<open>The helpers the sources call, after the specification\<close>

text \<open>
  The statements about particular guards (\<open>x \<le> 1\<close> against \<open>x \<ge> 1\<close>, the hull of
  \<open>x \<le> 2\<close> and \<open>1 \<le> x \<le> 3\<close>) need the guard algebra itself, which is written here
  after the specification. What a guard means: a valuation gives every clock a
  non-negative real value, and it satisfies a guard when every constraint of the guard
  holds of the value of its clock. The helpers below are computed from bounds; that they
  agree with this meaning is proved further down.
\<close>

definition holds :: "Constraint \<Rightarrow> real \<Rightarrow> bool" where
  "holds con r =
     (case odr con of
        lt \<Rightarrow> r < of_int (bound_c con)
      | le \<Rightarrow> r \<le> of_int (bound_c con)
      | ge \<Rightarrow> of_int (bound_c con) \<le> r
      | gt \<Rightarrow> of_int (bound_c con) < r)"

definition satisfies :: "(ClockVariables \<Rightarrow> real) \<Rightarrow> Constraint list \<Rightarrow> bool" where
  "satisfies v g \<longleftrightarrow> (\<forall>k. 0 \<le> v k) \<and> (\<forall>con\<in>set g. holds con (v (clock_x con)))"

text \<open>
  A guard is a conjunction of constraints on single clocks, so its solutions are a box:
  for every clock an interval between the tightest lower bound (at least \<open>0\<close>, clocks
  being non-negative) and the tightest upper bound, if there is one. A bound is a value
  and a flag that is true when the bound is strict.
\<close>

type_synonym Bound = "int \<times> bool"

fun tighterLower :: "Bound \<Rightarrow> Bound \<Rightarrow> Bound" where
  "tighterLower (a, sa) (b, sb) = (if a < b then (b, sb) else if b < a then (a, sa) else (a, sa \<or> sb))"

fun looserLower :: "Bound \<Rightarrow> Bound \<Rightarrow> Bound" where
  "looserLower (a, sa) (b, sb) = (if a < b then (a, sa) else if b < a then (b, sb) else (a, sa \<and> sb))"

fun tighterUpper :: "Bound option \<Rightarrow> Bound \<Rightarrow> Bound option" where
  "tighterUpper None b = Some b"
| "tighterUpper (Some (a, sa)) (b, sb) =
     (if a < b then Some (a, sa) else if b < a then Some (b, sb) else Some (a, sa \<or> sb))"

fun looserUpper :: "Bound option \<Rightarrow> Bound option \<Rightarrow> Bound option" where
  "looserUpper (Some (a, sa)) (Some (b, sb)) =
     (if a < b then Some (b, sb) else if b < a then Some (a, sa) else Some (a, sa \<and> sb))"
| "looserUpper _ _ = None"

text \<open>The values a lower bound and an upper bound admit.\<close>

definition aboveLower :: "Bound \<Rightarrow> real \<Rightarrow> bool" where
  "aboveLower l r = (if snd l then of_int (fst l) < r else of_int (fst l) \<le> r)"

definition belowUpper :: "Bound option \<Rightarrow> real \<Rightarrow> bool" where
  "belowUpper u r =
     (case u of None \<Rightarrow> True | Some (uv, us) \<Rightarrow> if us then r < of_int uv else r \<le> of_int uv)"

definition lowerStep :: "ClockVariables \<Rightarrow> Constraint \<Rightarrow> Bound \<Rightarrow> Bound" where
  "lowerStep k con b =
     (if clock_x con = k \<and> odr con = ge then tighterLower b (bound_c con, False)
      else if clock_x con = k \<and> odr con = gt then tighterLower b (bound_c con, True)
      else b)"

definition upperStep :: "ClockVariables \<Rightarrow> Constraint \<Rightarrow> Bound option \<Rightarrow> Bound option" where
  "upperStep k con b =
     (if clock_x con = k \<and> odr con = le then tighterUpper b (bound_c con, False)
      else if clock_x con = k \<and> odr con = lt then tighterUpper b (bound_c con, True)
      else b)"

definition lowerBound :: "Constraint list \<Rightarrow> ClockVariables \<Rightarrow> Bound" where
  "lowerBound g k = fold (lowerStep k) g (0, False)"

definition upperBound :: "Constraint list \<Rightarrow> ClockVariables \<Rightarrow> Bound option" where
  "upperBound g k = fold (upperStep k) g None"

definition nonEmptyInterval :: "Bound \<Rightarrow> Bound option \<Rightarrow> bool" where
  "nonEmptyInterval l u =
     (case u of
        None \<Rightarrow> True
      | Some (uv, us) \<Rightarrow> fst l < uv \<or> (fst l = uv \<and> \<not> snd l \<and> \<not> us))"

text \<open>
  Modelled from the spec: \<^verbatim>\<open>satisfiable(guard)\<close>, ``is the conjunction non-empty''.
  The box is non-empty when the interval of each clock the guard mentions is.
\<close>

definition specSatisfiable :: "Constraint list \<Rightarrow> bool" where
  "specSatisfiable g =
     list_all (\<lambda>k. nonEmptyInterval (lowerBound g k) (upperBound g k)) (remdups (map clock_x g))"

text \<open>
  Modelled from the spec: \<^verbatim>\<open>conjunction(g1, g2)\<close>, ``set union of constraints'': the
  constraints of both guards.
\<close>

definition specConjunction :: "Constraint list \<Rightarrow> Constraint list \<Rightarrow> Constraint list" where
  "specConjunction g1 g2 = g1 @ g2"

text \<open>
  Modelled from the spec: \<^verbatim>\<open>isWeaker(gA, gB)\<close>, ``true iff every valuation satisfying
  \<open>gB\<close> also satisfies \<open>gA\<close>''. That is so when \<open>gB\<close> has no solution, or when each
  constraint of \<open>gA\<close> follows from the bounds \<open>gB\<close> puts on its clock.
\<close>

definition implied :: "Constraint list \<Rightarrow> Constraint \<Rightarrow> bool" where
  "implied gB con =
     (case odr con of
        le \<Rightarrow> (case upperBound gB (clock_x con) of None \<Rightarrow> False | Some (u, s) \<Rightarrow> u \<le> bound_c con)
      | lt \<Rightarrow> (case upperBound gB (clock_x con) of None \<Rightarrow> False
               | Some (u, s) \<Rightarrow> u < bound_c con \<or> (u = bound_c con \<and> s))
      | ge \<Rightarrow> bound_c con \<le> fst (lowerBound gB (clock_x con))
      | gt \<Rightarrow> bound_c con < fst (lowerBound gB (clock_x con)) \<or>
               (bound_c con = fst (lowerBound gB (clock_x con)) \<and> snd (lowerBound gB (clock_x con))))"

definition specIsWeaker :: "Constraint list \<Rightarrow> Constraint list \<Rightarrow> bool" where
  "specIsWeaker gA gB = (\<not> specSatisfiable gB \<or> list_all (implied gB) gA)"

text \<open>
  Modelled from the spec: \<^verbatim>\<open>unionHull(list-of-guards)\<close>, ``smallest guard that
  over-approximates the union of the given guards' solution sets''. For each clock the
  hull keeps the loosest lower bound and the loosest upper bound among the guards that
  have a solution; a lower bound \<open>x \<ge> 0\<close> is not written. When no guard has a solution
  the union is empty, and so is the conjunction of all of them.
\<close>

definition hullLower :: "Constraint list list \<Rightarrow> ClockVariables \<Rightarrow> Bound" where
  "hullLower gs k = fold looserLower (map (\<lambda>g. lowerBound g k) (tl gs)) (lowerBound (hd gs) k)"

definition hullUpper :: "Constraint list list \<Rightarrow> ClockVariables \<Rightarrow> Bound option" where
  "hullUpper gs k = fold (\<lambda>b a. looserUpper a b) (map (\<lambda>g. upperBound g k) (tl gs)) (upperBound (hd gs) k)"

definition hullOfClock :: "Constraint list list \<Rightarrow> ClockVariables \<Rightarrow> Constraint list" where
  "hullOfClock gs k =
     (if hullLower gs k = (0, False) then []
      else [\<lparr>clock_x = k, odr = (if snd (hullLower gs k) then gt else ge), bound_c = fst (hullLower gs k)\<rparr>]) @
     (case hullUpper gs k of
        None \<Rightarrow> []
      | Some (uv, us) \<Rightarrow> [\<lparr>clock_x = k, odr = (if us then lt else le), bound_c = uv\<rparr>])"

definition specUnionHull :: "Constraint list list \<Rightarrow> Constraint list" where
  "specUnionHull guards =
     (let gs = filter specSatisfiable guards
      in if gs = [] then concat guards
         else concat (map (hullOfClock gs) (sort (remdups (concat (map (map clock_x) gs))))))"

text \<open>
  Modelled from the spec: \<^verbatim>\<open>TATransition::impreciseConstantAssignSize\<close>, the ``count of
  imprecise constant assignments'': the resets to a constant that is not an integer.
\<close>

definition specImpreciseConstantAssignSize :: "Resets \<Rightarrow> nat" where
  "specImpreciseConstantAssignSize resets =
     length (filter (\<lambda>pair. case snd pair of Constant d \<Rightarrow> d \<noteq> of_int \<lfloor>d\<rfloor> | Clock y \<Rightarrow> False) resets)"

definition specGuardOps :: GuardOps where
  "specGuardOps =
     \<lparr>isWeaker = specIsWeaker, satisfiable = specSatisfiable, conjunction = specConjunction,
      unionHull = specUnionHull, impreciseConstantAssignSize = specImpreciseConstantAssignSize\<rparr>"

text \<open>
  Modelled from the spec: a neighbor condition, reduced to what the handler asks of it: its
  relaxed guard, its clock count and its imprecise clocks. \<^verbatim>\<open>match(transition)\<close>,
  ``does the transition's guard overlap this neighborhood'', holds when the relaxed guard
  and the transition's guard have a common solution. The successors leave the relaxed
  guard as it is; after an external transition the clock count is the one given.
\<close>

record Neighborhood =
  relaxed :: "Constraint list"
  clockSize :: nat
  imprecise :: "ClockVariables list"

definition specNeighborOps :: "Neighborhood NeighborOps" where
  "specNeighborOps =
     \<lparr>match = (\<lambda>n transition. specSatisfiable (specConjunction (relaxed n) (guard transition))),
      toRelaxedGuard = relaxed,
      getClockSize = clockSize,
      impreciseClocks = imprecise,
      makeAfterExternalTransition = (\<lambda>n resets size. n\<lparr>clockSize := size\<rparr>),
      successor = (\<lambda>n action. n),
      successorAssign = (\<lambda>n. n),
      hash_value = (\<lambda>(state, n). state + clockSize n)\<rparr>"

section \<open>Example data\<close>

text \<open>The constraints \<open>x \<le> n\<close>, \<open>x < n\<close>, \<open>x \<ge> n\<close> and \<open>x > n\<close> on the clock \<open>k\<close>.\<close>

abbreviation Le :: "ClockVariables \<Rightarrow> int \<Rightarrow> Constraint" where
  "Le k n \<equiv> \<lparr>clock_x = k, odr = le, bound_c = n\<rparr>"
abbreviation Lt :: "ClockVariables \<Rightarrow> int \<Rightarrow> Constraint" where
  "Lt k n \<equiv> \<lparr>clock_x = k, odr = lt, bound_c = n\<rparr>"
abbreviation Ge :: "ClockVariables \<Rightarrow> int \<Rightarrow> Constraint" where
  "Ge k n \<equiv> \<lparr>clock_x = k, odr = ge, bound_c = n\<rparr>"
abbreviation Gt :: "ClockVariables \<Rightarrow> int \<Rightarrow> Constraint" where
  "Gt k n \<equiv> \<lparr>clock_x = k, odr = gt, bound_c = n\<rparr>"

text \<open>
  A store with an accepting state at every address but \<open>3\<close>; the state at address
  \<open>2\<close> has one transition, whose guard mentions the clock \<open>1\<close>. The neighbor
  condition has the relaxed guard \<open>1 \<le> x \<le> 3\<close> on the clock \<open>0\<close>, which is its one
  imprecise clock. The three transitions are guarded by \<open>x \<ge> 2\<close>: one without resets,
  one that resets the newest clock to \<open>0\<close>, one that resets the imprecise clock to
  \<open>1\<close>.
\<close>

definition storeEx :: Store where
  "storeEx = (\<lambda>q. if q = 2
                then \<lparr>isMatch = True,
                      next' = [(CHR ''a'', [\<lparr>target = 2, resetVars = [], guard = [Ge 1 0]\<rparr>])]\<rparr>
                else if q = 3 then \<lparr>isMatch = False, next' = []\<rparr>
                else \<lparr>isMatch = True, next' = []\<rparr>)"

definition neighborEx :: Neighborhood where
  "neighborEx = \<lparr>relaxed = [Ge 0 1, Le 0 3], clockSize = 1, imprecise = [0]\<rparr>"

definition externalEx :: TATransition where
  "externalEx = \<lparr>target = 1, resetVars = [], guard = [Ge 0 2]\<rparr>"

definition internalEx :: TATransition where
  "internalEx = \<lparr>target = 1, resetVars = [(1, Constant 0)], guard = [Ge 0 2]\<rparr>"

definition overwritingEx :: TATransition where
  "overwritingEx = \<lparr>target = 2, resetVars = [(0, Constant 1)], guard = [Ge 0 2]\<rparr>"

text \<open>
  Transitions for the merge: two with the same guard and the same target but different
  reset maps; two with overlapping guards and one imprecise constant assignment each,
  to two accepting states; one to the state that is not accepting; three where the
  third overlaps both the first and the second, which do not overlap each other; and one
  with the guard \<open>x \<le> 2\<close>, which is strictly weaker than the guard \<open>x \<le> 1\<close> of the
  first of the three and has its target.
\<close>

definition equivalentEx1 :: TATransition where
  "equivalentEx1 = \<lparr>target = 1, resetVars = [(0, Constant 0)], guard = [Le 0 1]\<rparr>"

definition equivalentEx2 :: TATransition where
  "equivalentEx2 = \<lparr>target = 1, resetVars = [], guard = [Le 0 1]\<rparr>"

definition overlapEx1 :: TATransition where
  "overlapEx1 = \<lparr>target = 1, resetVars = [(0, Constant (1/2))], guard = [Le 0 2]\<rparr>"

definition overlapEx2 :: TATransition where
  "overlapEx2 = \<lparr>target = 4, resetVars = [(0, Constant (3/2))], guard = [Ge 0 1, Le 0 3]\<rparr>"

definition rejectingEx :: TATransition where
  "rejectingEx = \<lparr>target = 3, resetVars = [], guard = [Ge 0 1, Le 0 3]\<rparr>"

definition chainEx1 :: TATransition where
  "chainEx1 = \<lparr>target = 1, resetVars = [], guard = [Le 0 1]\<rparr>"

definition chainEx2 :: TATransition where
  "chainEx2 = \<lparr>target = 1, resetVars = [], guard = [Ge 0 2, Le 0 3]\<rparr>"

definition chainEx3 :: TATransition where
  "chainEx3 = \<lparr>target = 1, resetVars = [], guard = [Ge 0 1, Le 0 2]\<rparr>"

definition wideEx :: TATransition where
  "wideEx = \<lparr>target = 1, resetVars = [], guard = [Le 0 2]\<rparr>"


section \<open>Evaluation of the examples\<close>

lemmas spec_guard_defs =
  specGuardOps_def specSatisfiable_def specConjunction_def specIsWeaker_def implied_def
  specUnionHull_def hullOfClock_def hullLower_def hullUpper_def lowerBound_def upperBound_def
  lowerStep_def upperStep_def nonEmptyInterval_def
  specImpreciseConstantAssignSize_def

lemmas spec_neighbor_defs = specNeighborOps_def neighborEx_def

lemmas handleOne_defs =
  handleOne_def upperBounded_def relaxedGuardOf_def accepted_def isInternal_def isUpperBound_def
  targetClockSizeOf_def allConstant_def allOverwritten_def overwritten_def isConstant_def

lemmas merge_defs =
  mergeNondeterministicBranching_def mergeTransitions_def mergePair_def

lemmas merge_ex_defs =
  overlapEx1_def overlapEx2_def rejectingEx_def chainEx1_def chainEx2_def chainEx3_def storeEx_def


section \<open>The helpers against their meaning\<close>

text \<open>
  The computed helpers are the ones the specification describes: \<open>specSatisfiable\<close> holds
  exactly of the guards some valuation satisfies, the valuations of a conjunction are
  those of both guards, \<open>specIsWeaker gA gB\<close> holds exactly when every valuation that
  satisfies \<open>gB\<close> satisfies \<open>gA\<close>, and the valuations of \<open>specUnionHull\<close> contain those
  of every guard of the list and are contained in those of every guard that contains
  them all.
\<close>

lemma aboveLower_tighter:
  "aboveLower (tighterLower a b) r \<longleftrightarrow> aboveLower a r \<and> aboveLower b r"
proof -
  obtain av as where a: "a = (av, as)" by (cases a)
  obtain bv bs where b: "b = (bv, bs)" by (cases b)
  from a b show ?thesis
    by (cases "av < bv"; cases "bv < av"; cases as; cases bs) (auto simp: aboveLower_def)
qed

lemma belowUpper_tighter:
  "belowUpper (tighterUpper a b) r \<longleftrightarrow> belowUpper a r \<and> belowUpper (Some b) r"
proof -
  obtain bv bs where b: "b = (bv, bs)" by (cases b)
  show ?thesis
  proof (cases a)
    case None
    with b show ?thesis by (simp add: belowUpper_def)
  next
    case (Some a')
    obtain av as where "a' = (av, as)" by (cases a')
    with Some b show ?thesis
      by (cases "av < bv"; cases "bv < av"; cases as; cases bs) (auto simp: belowUpper_def)
  qed
qed

lemma aboveLower_step:
  "aboveLower (lowerStep k con b) r \<longleftrightarrow>
     aboveLower b r \<and> (clock_x con = k \<and> (odr con = ge \<or> odr con = gt) \<longrightarrow> holds con r)"
  by (cases "odr con") (simp_all add: lowerStep_def aboveLower_tighter, simp_all add: aboveLower_def holds_def)

lemma belowUpper_step:
  "belowUpper (upperStep k con b) r \<longleftrightarrow>
     belowUpper b r \<and> (clock_x con = k \<and> (odr con = le \<or> odr con = lt) \<longrightarrow> holds con r)"
  by (cases "odr con") (simp_all add: upperStep_def belowUpper_tighter, simp_all add: belowUpper_def holds_def)

lemma aboveLower_fold:
  "aboveLower (fold (lowerStep k) g b) r \<longleftrightarrow>
     aboveLower b r \<and>
     (\<forall>con\<in>set g. clock_x con = k \<and> (odr con = ge \<or> odr con = gt) \<longrightarrow> holds con r)"
  by (induction g arbitrary: b) (auto simp: aboveLower_step)

lemma belowUpper_fold:
  "belowUpper (fold (upperStep k) g b) r \<longleftrightarrow>
     belowUpper b r \<and>
     (\<forall>con\<in>set g. clock_x con = k \<and> (odr con = le \<or> odr con = lt) \<longrightarrow> holds con r)"
  by (induction g arbitrary: b) (auto simp: belowUpper_step)

lemma aboveLower_lowerBound:
  "aboveLower (lowerBound g k) r \<longleftrightarrow>
     0 \<le> r \<and> (\<forall>con\<in>set g. clock_x con = k \<and> (odr con = ge \<or> odr con = gt) \<longrightarrow> holds con r)"
  unfolding lowerBound_def aboveLower_fold by (simp add: aboveLower_def)

lemma belowUpper_upperBound:
  "belowUpper (upperBound g k) r \<longleftrightarrow>
     (\<forall>con\<in>set g. clock_x con = k \<and> (odr con = le \<or> odr con = lt) \<longrightarrow> holds con r)"
  unfolding upperBound_def belowUpper_fold by (simp add: belowUpper_def)

lemma satisfies_bounds:
  "satisfies v g \<longleftrightarrow> (\<forall>k. aboveLower (lowerBound g k) (v k) \<and> belowUpper (upperBound g k) (v k))"
proof -
  have "odr con = lt \<or> odr con = le \<or> odr con = ge \<or> odr con = gt" for con :: Constraint
    by (cases "odr con") simp_all
  then show ?thesis
    unfolding satisfies_def aboveLower_lowerBound belowUpper_upperBound by blast
qed

lemma nonEmptyInterval_iff:
  "nonEmptyInterval l u \<longleftrightarrow> (\<exists>r. aboveLower l r \<and> belowUpper u r)"
proof (cases u)
  case None
  have "aboveLower l (of_int (fst l) + 1)" by (simp add: aboveLower_def)
  with None show ?thesis by (auto simp: nonEmptyInterval_def belowUpper_def)
next
  case (Some b)
  obtain uv us where b: "b = (uv, us)" by (cases b)
  show ?thesis
  proof
    assume "nonEmptyInterval l u"
    with Some b have "fst l < uv \<or> (fst l = uv \<and> \<not> snd l \<and> \<not> us)"
      by (simp add: nonEmptyInterval_def)
    then show "\<exists>r. aboveLower l r \<and> belowUpper u r"
    proof
      assume "fst l < uv"
      then have "of_int (fst l) + 1 \<le> (of_int uv :: real)"
        by (metis of_int_1 of_int_add of_int_le_iff zless_imp_add1_zle)
      then have "aboveLower l (of_int (fst l) + 1/2) \<and> belowUpper u (of_int (fst l) + 1/2)"
        using Some b by (simp add: aboveLower_def belowUpper_def)
      then show ?thesis ..
    next
      assume "fst l = uv \<and> \<not> snd l \<and> \<not> us"
      then have "aboveLower l (of_int uv) \<and> belowUpper u (of_int uv)"
        using Some b by (simp add: aboveLower_def belowUpper_def)
      then show ?thesis ..
    qed
  next
    assume "\<exists>r. aboveLower l r \<and> belowUpper u r"
    then obtain r where "aboveLower l r" "belowUpper u r" by blast
    with Some b show "nonEmptyInterval l u"
      by (auto simp: nonEmptyInterval_def aboveLower_def belowUpper_def split: if_splits)
  qed
qed

lemma bounds_unmentioned:
  assumes "k \<notin> clock_x ` set g"
  shows "lowerBound g k = (0, False) \<and> upperBound g k = None"
proof -
  have "fold (lowerStep k) g b = b" for b
    using assms by (induction g arbitrary: b) (auto simp: lowerStep_def)
  moreover have "fold (upperStep k) g b = b" for b
    using assms by (induction g arbitrary: b) (auto simp: upperStep_def)
  ultimately show ?thesis by (simp add: lowerBound_def upperBound_def)
qed

lemma specSatisfiable_all_clocks:
  "specSatisfiable g \<longleftrightarrow> (\<forall>k. nonEmptyInterval (lowerBound g k) (upperBound g k))"
proof -
  have "nonEmptyInterval (lowerBound g k) (upperBound g k)" if "k \<notin> clock_x ` set g" for k
    using bounds_unmentioned [OF that] by (simp add: nonEmptyInterval_def)
  moreover have "list_all (\<lambda>k. nonEmptyInterval (lowerBound g k) (upperBound g k)) (remdups (map clock_x g)) \<longleftrightarrow>
      (\<forall>k\<in>clock_x ` set g. nonEmptyInterval (lowerBound g k) (upperBound g k))"
    by (simp add: list_all_iff)
  ultimately show ?thesis
    unfolding specSatisfiable_def by blast
qed

lemma specSatisfiable_iff: "specSatisfiable g \<longleftrightarrow> (\<exists>v. satisfies v g)"
proof
  assume "specSatisfiable g"
  then have "\<forall>k. \<exists>r. aboveLower (lowerBound g k) r \<and> belowUpper (upperBound g k) r"
    by (simp add: specSatisfiable_all_clocks nonEmptyInterval_iff)
  then obtain v where "\<forall>k. aboveLower (lowerBound g k) (v k) \<and> belowUpper (upperBound g k) (v k)"
    by metis
  then show "\<exists>v. satisfies v g" by (auto simp: satisfies_bounds)
next
  assume "\<exists>v. satisfies v g"
  then show "specSatisfiable g"
    unfolding specSatisfiable_all_clocks nonEmptyInterval_iff satisfies_bounds by blast
qed

lemma implied_sound:
  assumes "implied gB con"
    and "aboveLower (lowerBound gB (clock_x con)) r"
    and "belowUpper (upperBound gB (clock_x con)) r"
  shows "holds con r"
proof (cases "odr con")
  case lt
  with assms(1) obtain u s where "upperBound gB (clock_x con) = Some (u, s)"
    and "u < bound_c con \<or> (u = bound_c con \<and> s)"
    by (auto simp: implied_def split: option.splits)
  with assms(3) lt show ?thesis
    by (auto simp: belowUpper_def holds_def split: if_splits)
next
  case le
  with assms(1) obtain u s where "upperBound gB (clock_x con) = Some (u, s)"
    and "u \<le> bound_c con"
    by (auto simp: implied_def split: option.splits)
  with assms(3) le show ?thesis
    by (auto simp: belowUpper_def holds_def split: if_splits)
next
  case ge
  with assms(1) have "bound_c con \<le> fst (lowerBound gB (clock_x con))"
    by (simp add: implied_def)
  with assms(2) ge show ?thesis
    by (auto simp: aboveLower_def holds_def split: if_splits)
next
  case gt
  with assms(1) have "bound_c con < fst (lowerBound gB (clock_x con)) \<or>
      (bound_c con = fst (lowerBound gB (clock_x con)) \<and> snd (lowerBound gB (clock_x con)))"
    by (simp add: implied_def)
  with assms(2) gt show ?thesis
    by (auto simp: aboveLower_def holds_def split: if_splits)
qed

lemma half_between: "(a::int) < b \<Longrightarrow> (of_int a :: real) + 1/2 < of_int b"
proof -
  assume "a < b"
  then have "a + 1 \<le> b" by simp
  then have "(of_int (a + 1) :: real) \<le> of_int b" by (simp only: of_int_le_iff)
  then show ?thesis by simp
qed

lemma implied_complete:
  assumes ne: "nonEmptyInterval l u"
    and l: "l = lowerBound gB (clock_x con)" and u: "u = upperBound gB (clock_x con)"
    and ni: "\<not> implied gB con"
  shows "\<exists>r. aboveLower l r \<and> belowUpper u r \<and> \<not> holds con r"
proof -
  obtain lv ls where lp: "l = (lv, ls)" by (cases l)
  define c where "c = bound_c con"
  define m where "m = max lv c"
  have m: "lv \<le> m" "c \<le> m" by (simp_all add: m_def)
  show ?thesis
  proof (cases "odr con = lt \<or> odr con = le")
    case upper: True
    show ?thesis
    proof (cases u)
      case None
      have "aboveLower l (of_int m + 1) \<and> belowUpper u (of_int m + 1) \<and> \<not> holds con (of_int m + 1)"
        using None lp m upper by (auto simp: aboveLower_def belowUpper_def holds_def c_def)
      then show ?thesis ..
    next
      case (Some b)
      obtain uv us where b: "b = (uv, us)" by (cases b)
      from ne Some b lp have ne': "lv < uv \<or> (lv = uv \<and> \<not> ls \<and> \<not> us)"
        by (simp add: nonEmptyInterval_def)
      from ni upper Some b u have far: "c < uv \<or> (c = uv \<and> odr con = lt \<and> \<not> us)"
        by (auto simp: implied_def c_def)
      show ?thesis
      proof (cases "lv < uv \<and> c < uv")
        case True
        then have "m < uv" by (simp add: m_def)
        from half_between [OF this]
        have "aboveLower l (of_int m + 1/2) \<and> belowUpper u (of_int m + 1/2) \<and>
            \<not> holds con (of_int m + 1/2)"
          using Some b lp m upper by (auto simp: aboveLower_def belowUpper_def holds_def c_def)
        then show ?thesis ..
      next
        case False
        with ne' far have "aboveLower l (of_int uv) \<and> belowUpper u (of_int uv) \<and>
            \<not> holds con (of_int uv)"
          using Some b lp upper by (auto simp: aboveLower_def belowUpper_def holds_def c_def)
        then show ?thesis ..
      qed
    qed
  next
    case lower: False
    then have lower: "odr con = ge \<or> odr con = gt" by (cases "odr con") simp_all
    from l lp have fl: "fst (lowerBound gB (clock_x con)) = lv" "snd (lowerBound gB (clock_x con)) = ls"
      by (simp_all add: l [symmetric])
    from ni lower have below: "lv < c \<or> (lv = c \<and> odr con = gt \<and> \<not> ls)"
      unfolding implied_def fl c_def by auto
    show ?thesis
    proof (cases ls)
      case strict: True
      with below have "lv < c" by simp
      from half_between [OF this] have h: "(of_int lv :: real) + 1/2 < of_int c" .
      have "belowUpper u (of_int lv + 1/2)"
      proof (cases u)
        case None
        then show ?thesis by (simp add: belowUpper_def)
      next
        case (Some b)
        obtain uv us where b: "b = (uv, us)" by (cases b)
        with ne Some lp strict have "lv < uv" by (simp add: nonEmptyInterval_def)
        from half_between [OF this] Some b show ?thesis by (simp add: belowUpper_def)
      qed
      with h have "aboveLower l (of_int lv + 1/2) \<and> belowUpper u (of_int lv + 1/2) \<and>
          \<not> holds con (of_int lv + 1/2)"
        using lp strict lower by (auto simp: aboveLower_def holds_def c_def)
      then show ?thesis ..
    next
      case nonstrict: False
      have "belowUpper u (of_int lv)"
      proof (cases u)
        case None
        then show ?thesis by (simp add: belowUpper_def)
      next
        case (Some b)
        obtain uv us where b: "b = (uv, us)" by (cases b)
        with ne Some lp show ?thesis by (auto simp: nonEmptyInterval_def belowUpper_def)
      qed
      with below have "aboveLower l (of_int lv) \<and> belowUpper u (of_int lv) \<and> \<not> holds con (of_int lv)"
        using lp nonstrict lower by (auto simp: aboveLower_def holds_def c_def)
      then show ?thesis ..
    qed
  qed
qed

lemma specIsWeaker_iff:
  "specIsWeaker gA gB \<longleftrightarrow> (\<forall>v. satisfies v gB \<longrightarrow> satisfies v gA)"
proof
  assume w: "specIsWeaker gA gB"
  show "\<forall>v. satisfies v gB \<longrightarrow> satisfies v gA"
  proof (intro allI impI)
    fix v assume v: "satisfies v gB"
    then have "specSatisfiable gB" by (auto simp: specSatisfiable_iff)
    with w have imp: "\<forall>con\<in>set gA. implied gB con"
      by (simp add: specIsWeaker_def list_all_iff)
    from v have nonneg: "\<forall>k. 0 \<le> v k" by (simp add: satisfies_def)
    from v have b: "aboveLower (lowerBound gB k) (v k)" "belowUpper (upperBound gB k) (v k)" for k
      by (simp_all add: satisfies_bounds)
    from imp b have "\<forall>con\<in>set gA. holds con (v (clock_x con))"
      by (blast intro: implied_sound)
    with nonneg show "satisfies v gA" by (simp add: satisfies_def)
  qed
next
  assume incl: "\<forall>v. satisfies v gB \<longrightarrow> satisfies v gA"
  show "specIsWeaker gA gB"
  proof (cases "specSatisfiable gB")
    case False
    then show ?thesis by (simp add: specIsWeaker_def)
  next
    case True
    then obtain v0 where v0: "satisfies v0 gB" by (auto simp: specSatisfiable_iff)
    have "implied gB con" if con: "con \<in> set gA" for con
    proof (rule ccontr)
      assume ni: "\<not> implied gB con"
      from True have "nonEmptyInterval (lowerBound gB (clock_x con)) (upperBound gB (clock_x con))"
        by (simp add: specSatisfiable_all_clocks)
      from implied_complete [OF this refl refl ni] obtain r
        where r: "aboveLower (lowerBound gB (clock_x con)) r"
          "belowUpper (upperBound gB (clock_x con)) r" "\<not> holds con r"
        by blast
      let ?v = "v0(clock_x con := r)"
      from v0 r(1,2) have "satisfies ?v gB"
        by (simp add: satisfies_bounds)
      with incl have "satisfies ?v gA" by blast
      then have "\<forall>c\<in>set gA. holds c (?v (clock_x c))" unfolding satisfies_def by (rule conjunct2)
      with con have "holds con (?v (clock_x con))" by blast
      with r(3) show False by simp
    qed
    then show ?thesis by (simp add: specIsWeaker_def list_all_iff)
  qed
qed

lemma specConjunction_iff:
  "satisfies v (specConjunction g1 g2) \<longleftrightarrow> satisfies v g1 \<and> satisfies v g2"
  by (auto simp: satisfies_def specConjunction_def)

lemma aboveLower_looser:
  "aboveLower (looserLower a b) r \<longleftrightarrow> aboveLower a r \<or> aboveLower b r"
proof -
  obtain av as where a: "a = (av, as)" by (cases a)
  obtain bv bs where b: "b = (bv, bs)" by (cases b)
  from a b show ?thesis
    by (cases "av < bv"; cases "bv < av"; cases as; cases bs) (auto simp: aboveLower_def)
qed

lemma belowUpper_looser:
  "belowUpper (looserUpper a b) r \<longleftrightarrow> belowUpper a r \<or> belowUpper b r"
proof (cases a)
  case None
  then show ?thesis by (simp add: belowUpper_def)
next
  case sa: (Some a')
  obtain av as where a': "a' = (av, as)" by (cases a')
  show ?thesis
  proof (cases b)
    case None
    with sa a' show ?thesis by (simp add: belowUpper_def)
  next
    case (Some b')
    obtain bv bs where "b' = (bv, bs)" by (cases b')
    with Some sa a' show ?thesis
      by (cases "av < bv"; cases "bv < av"; cases as; cases bs) (auto simp: belowUpper_def)
  qed
qed

lemma aboveLower_fold_looser:
  "aboveLower (fold looserLower bs b) r \<longleftrightarrow> aboveLower b r \<or> (\<exists>b'\<in>set bs. aboveLower b' r)"
  by (induction bs arbitrary: b) (auto simp: aboveLower_looser)

lemma belowUpper_fold_looser:
  "belowUpper (fold (\<lambda>b a. looserUpper a b) bs b) r \<longleftrightarrow>
     belowUpper b r \<or> (\<exists>b'\<in>set bs. belowUpper b' r)"
  by (induction bs arbitrary: b) (auto simp: belowUpper_looser)

lemma aboveLower_hullLower:
  "gs \<noteq> [] \<Longrightarrow> aboveLower (hullLower gs k) r \<longleftrightarrow> (\<exists>g\<in>set gs. aboveLower (lowerBound g k) r)"
  by (cases gs) (auto simp: hullLower_def aboveLower_fold_looser)

lemma belowUpper_hullUpper:
  "gs \<noteq> [] \<Longrightarrow> belowUpper (hullUpper gs k) r \<longleftrightarrow> (\<exists>g\<in>set gs. belowUpper (upperBound g k) r)"
  by (cases gs) (auto simp: hullUpper_def belowUpper_fold_looser)

lemma hullOfClock_clock: "con \<in> set (hullOfClock gs k) \<Longrightarrow> clock_x con = k"
  by (auto simp: hullOfClock_def split: if_splits option.splits)

lemma hullOfClock_holds:
  "0 \<le> r \<Longrightarrow>
     (\<forall>con\<in>set (hullOfClock gs k). holds con r) \<longleftrightarrow>
       aboveLower (hullLower gs k) r \<and> belowUpper (hullUpper gs k) r"
proof -
  assume r: "0 \<le> r"
  obtain lv ls where l: "hullLower gs k = (lv, ls)" by (cases "hullLower gs k")
  show ?thesis
  proof (cases "hullUpper gs k")
    case None
    with l r show ?thesis
      by (auto simp: hullOfClock_def holds_def aboveLower_def belowUpper_def)
  next
    case (Some b)
    obtain uv us where "b = (uv, us)" by (cases b)
    with Some l r show ?thesis
      by (auto simp: hullOfClock_def holds_def aboveLower_def belowUpper_def)
  qed
qed

lemma satisfies_hull:
  assumes "gs \<noteq> []"
  shows "satisfies v (concat (map (hullOfClock gs) (sort (remdups (concat (map (map clock_x) gs)))))) \<longleftrightarrow>
     (\<forall>k. 0 \<le> v k) \<and>
     (\<forall>k. (\<exists>g\<in>set gs. aboveLower (lowerBound g k) (v k)) \<and>
          (\<exists>g\<in>set gs. belowUpper (upperBound g k) (v k)))"
proof (cases "\<forall>k. 0 \<le> v k")
  case False
  then show ?thesis unfolding satisfies_def by blast
next
  case nonneg: True
  let ?ks = "sort (remdups (concat (map (map clock_x) gs)))"
  have ks: "set ?ks = (\<Union>g\<in>set gs. clock_x ` set g)" by auto
  have "satisfies v (concat (map (hullOfClock gs) ?ks)) \<longleftrightarrow>
      (\<forall>k\<in>set ?ks. \<forall>con\<in>set (hullOfClock gs k). holds con (v k))"
    using nonneg by (auto simp: satisfies_def hullOfClock_clock)
  also have "\<dots> \<longleftrightarrow> (\<forall>k\<in>set ?ks. aboveLower (hullLower gs k) (v k) \<and> belowUpper (hullUpper gs k) (v k))"
    using nonneg by (simp add: hullOfClock_holds)
  also have "\<dots> \<longleftrightarrow> (\<forall>k\<in>set ?ks. (\<exists>g\<in>set gs. aboveLower (lowerBound g k) (v k)) \<and>
          (\<exists>g\<in>set gs. belowUpper (upperBound g k) (v k)))"
    using assms by (simp add: aboveLower_hullLower belowUpper_hullUpper)
  also have "\<dots> \<longleftrightarrow> (\<forall>k. (\<exists>g\<in>set gs. aboveLower (lowerBound g k) (v k)) \<and>
          (\<exists>g\<in>set gs. belowUpper (upperBound g k) (v k)))"
  proof -
    have "(\<exists>g\<in>set gs. aboveLower (lowerBound g k) (v k)) \<and>
          (\<exists>g\<in>set gs. belowUpper (upperBound g k) (v k))" if "k \<notin> set ?ks" for k
    proof -
      from assms obtain g where g: "g \<in> set gs" by (cases gs) auto
      with that have "k \<notin> clock_x ` set g" unfolding ks by blast
      from bounds_unmentioned [OF this] nonneg
      have "aboveLower (lowerBound g k) (v k) \<and> belowUpper (upperBound g k) (v k)"
        by (simp add: aboveLower_def belowUpper_def)
      with g show ?thesis by blast
    qed
    then show ?thesis by blast
  qed
  finally show ?thesis using nonneg by simp
qed

lemma specUnionHull_sound:
  assumes "g \<in> set guards" and "satisfies v g"
  shows "satisfies v (specUnionHull guards)"
proof -
  let ?gs = "filter specSatisfiable guards"
  from assms have "specSatisfiable g" unfolding specSatisfiable_iff by blast
  with assms(1) have g: "g \<in> set ?gs" by simp
  then have ne: "?gs \<noteq> []" by (auto simp: filter_empty_conv)
  from assms(2) have "\<forall>k. 0 \<le> v k" by (simp add: satisfies_def)
  moreover from assms(2) have "\<forall>k. aboveLower (lowerBound g k) (v k) \<and> belowUpper (upperBound g k) (v k)"
    by (simp add: satisfies_bounds)
  ultimately have "satisfies v (concat (map (hullOfClock ?gs) (sort (remdups (concat (map (map clock_x) ?gs))))))"
    unfolding satisfies_hull [OF ne] using g by blast
  with ne show ?thesis by (simp add: specUnionHull_def Let_def)
qed

lemma aboveLower_mono: "aboveLower l r \<Longrightarrow> r \<le> r' \<Longrightarrow> aboveLower l r'"
  by (auto simp: aboveLower_def split: if_splits)

lemma belowUpper_mono: "belowUpper u r \<Longrightarrow> r' \<le> r \<Longrightarrow> belowUpper u r'"
  by (auto simp: belowUpper_def split: if_splits option.splits)

lemma specUnionHull_least:
  assumes ne: "guards \<noteq> []"
    and over: "\<forall>g\<in>set guards. \<forall>v. satisfies v g \<longrightarrow> satisfies v h"
    and hull: "satisfies v (specUnionHull guards)"
  shows "satisfies v h"
proof (cases "filter specSatisfiable guards = []")
  case True
  with hull have "satisfies v (concat guards)" by (simp add: specUnionHull_def Let_def)
  moreover from ne obtain g where g: "g \<in> set guards" by (cases guards) auto
  ultimately have "satisfies v g" by (auto simp: satisfies_def)
  with over g show ?thesis by blast
next
  case False
  let ?gs = "filter specSatisfiable guards"
  from hull False have "satisfies v (concat (map (hullOfClock ?gs) (sort (remdups (concat (map (map clock_x) ?gs))))))"
    by (simp add: specUnionHull_def Let_def)
  then have nonneg: "\<forall>k. 0 \<le> v k"
    and within: "\<And>k. (\<exists>g\<in>set ?gs. aboveLower (lowerBound g k) (v k)) \<and>
          (\<exists>g\<in>set ?gs. belowUpper (upperBound g k) (v k))"
    unfolding satisfies_hull [OF False] by blast+
  have "holds con (v (clock_x con))" if con: "con \<in> set h" for con
  proof (cases "odr con = lt \<or> odr con = le")
    case True
    from within [of "clock_x con"] obtain g where g: "g \<in> set ?gs"
      and up: "belowUpper (upperBound g (clock_x con)) (v (clock_x con))" by blast
    from g obtain w where w: "satisfies w g" by (auto simp: specSatisfiable_iff)
    let ?r = "max (v (clock_x con)) (w (clock_x con))"
    from w have wb: "aboveLower (lowerBound g k) (w k)" "belowUpper (upperBound g k) (w k)" for k
      by (simp_all add: satisfies_bounds)
    have "aboveLower (lowerBound g (clock_x con)) ?r"
      by (rule aboveLower_mono [OF wb(1)]) simp
    moreover have "belowUpper (upperBound g (clock_x con)) ?r"
      using up wb(2) [of "clock_x con"] by (simp add: max_def)
    ultimately have "satisfies (w(clock_x con := ?r)) g"
      using wb by (simp add: satisfies_bounds)
    with over g have "satisfies (w(clock_x con := ?r)) h" by auto
    then have "\<forall>c\<in>set h. holds c ((w(clock_x con := ?r)) (clock_x c))"
      unfolding satisfies_def by (rule conjunct2)
    with con have "holds con ?r" by fastforce
    with True show ?thesis by (auto simp: holds_def)
  next
    case False
    then have lower: "odr con = ge \<or> odr con = gt" by (cases "odr con") simp_all
    from within [of "clock_x con"] obtain g where g: "g \<in> set ?gs"
      and lo: "aboveLower (lowerBound g (clock_x con)) (v (clock_x con))" by blast
    from g obtain w where w: "satisfies w g" by (auto simp: specSatisfiable_iff)
    let ?r = "min (v (clock_x con)) (w (clock_x con))"
    from w have wb: "aboveLower (lowerBound g k) (w k)" "belowUpper (upperBound g k) (w k)" for k
      by (simp_all add: satisfies_bounds)
    have "belowUpper (upperBound g (clock_x con)) ?r"
      by (rule belowUpper_mono [OF wb(2)]) simp
    moreover have "aboveLower (lowerBound g (clock_x con)) ?r"
      using lo wb(1) [of "clock_x con"] by (simp add: min_def)
    ultimately have "satisfies (w(clock_x con := ?r)) g"
      using wb by (simp add: satisfies_bounds)
    with over g have "satisfies (w(clock_x con := ?r)) h" by auto
    then have "\<forall>c\<in>set h. holds c ((w(clock_x con := ?r)) (clock_x c))"
      unfolding satisfies_def by (rule conjunct2)
    with con have "holds con ?r" by fastforce
    with lower show ?thesis by (auto simp: holds_def)
  qed
  with nonneg show ?thesis by (simp add: satisfies_def)
qed

section \<open>Properties of \<^verbatim>\<open>deterministic\<close>\<close>

lemma deterministicTransitions_iff:
  "deterministicTransitions G before ts \<longleftrightarrow>
     (\<forall>j<length ts. \<forall>tr\<in>set (before @ take j ts).
        \<not> satisfiable G (conjunction G (guard tr) (guard (ts ! j))))"
proof (induction ts arbitrary: before)
  case Nil
  then show ?case by simp
next
  case (Cons it rest)
  have "(\<forall>j<length (it # rest). \<forall>tr\<in>set (before @ take j (it # rest)).
           \<not> satisfiable G (conjunction G (guard tr) (guard ((it # rest) ! j)))) \<longleftrightarrow>
        (\<forall>tr\<in>set before. \<not> satisfiable G (conjunction G (guard tr) (guard it))) \<and>
        (\<forall>j<length rest. \<forall>tr\<in>set ((before @ [it]) @ take j rest).
           \<not> satisfiable G (conjunction G (guard tr) (guard (rest ! j))))"
    (is "?L \<longleftrightarrow> ?A \<and> ?B")
  proof
    assume L: ?L
    have ?A using L [rule_format, of 0] by simp
    moreover have ?B
    proof (intro allI impI ballI)
      fix j tr assume "j < length rest" "tr \<in> set ((before @ [it]) @ take j rest)"
      with L [rule_format, of "Suc j" tr] show "\<not> satisfiable G (conjunction G (guard tr) (guard (rest ! j)))"
        by simp
    qed
    ultimately show "?A \<and> ?B" ..
  next
    assume AB: "?A \<and> ?B"
    show ?L
    proof (intro allI impI ballI)
      fix j tr assume j: "j < length (it # rest)" and tr: "tr \<in> set (before @ take j (it # rest))"
      show "\<not> satisfiable G (conjunction G (guard tr) (guard ((it # rest) ! j)))"
      proof (cases j)
        case 0
        with tr AB show ?thesis by simp
      next
        case (Suc j')
        with j tr AB [THEN conjunct2, rule_format, of j' tr] show ?thesis by simp
      qed
    qed
  qed
  with Cons.IH [of "before @ [it]"] show ?case
    by (simp add: list_ex_iff)
qed

lemma deterministicTransitions_pairs:
  "deterministicTransitions G [] ts \<longleftrightarrow>
     \<not> (\<exists>i j. i < j \<and> j < length ts \<and>
            satisfiable G (conjunction G (guard (ts ! i)) (guard (ts ! j))))"
proof -
  have "(\<forall>tr\<in>set (take j ts). \<not> satisfiable G (conjunction G (guard tr) (guard (ts ! j)))) \<longleftrightarrow>
        (\<forall>i<j. \<not> satisfiable G (conjunction G (guard (ts ! i)) (guard (ts ! j))))"
    if "j < length ts" for j
  proof -
    from that have "set (take j ts) = {ts ! i |i. i < j}"
      by (fastforce simp: in_set_conv_nth)
    then show ?thesis by auto
  qed
  then show ?thesis
    unfolding deterministicTransitions_iff by auto
qed

text \<open>
  Claim C4. \<^verbatim>\<open>deterministic()\<close> is false exactly when, for some action, two transitions
  at different positions of its vector have guards whose conjunction is satisfiable (the
  earlier one is the first argument of \<^verbatim>\<open>conjunction\<close>). It is a query: its result is
  a truth value and the state is not changed. With the guards \<open>x \<le> 1\<close> and \<open>x \<ge> 1\<close>
  on one action it is false, with \<open>x < 1\<close> and \<open>x \<ge> 1\<close> it is true.
\<close>

theorem deterministic_iff_no_overlapping_pair:
  "(deterministic G s \<longleftrightarrow>
      \<not> (\<exists>(action, transitions)\<in>set (next' s). \<exists>i j. i < j \<and> j < length transitions \<and>
            satisfiable G (conjunction G (guard (transitions ! i)) (guard (transitions ! j))))) \<and>
   \<not> deterministic specGuardOps
       \<lparr>isMatch = m, next' = [(a, [\<lparr>target = p, resetVars = r1, guard = [Le k 1]\<rparr>,
                                   \<lparr>target = q, resetVars = r2, guard = [Ge k 1]\<rparr>])]\<rparr> \<and>
   deterministic specGuardOps
       \<lparr>isMatch = m, next' = [(a, [\<lparr>target = p, resetVars = r1, guard = [Lt k 1]\<rparr>,
                                   \<lparr>target = q, resetVars = r2, guard = [Ge k 1]\<rparr>])]\<rparr>"
proof (intro conjI)
  show "deterministic G s \<longleftrightarrow>
      \<not> (\<exists>(action, transitions)\<in>set (next' s). \<exists>i j. i < j \<and> j < length transitions \<and>
            satisfiable G (conjunction G (guard (transitions ! i)) (guard (transitions ! j))))"
    unfolding deterministic_def list_all_iff
    by (auto simp: deterministicTransitions_pairs)
next
  show "\<not> deterministic specGuardOps
       \<lparr>isMatch = m, next' = [(a, [\<lparr>target = p, resetVars = r1, guard = [Le k 1]\<rparr>,
                                   \<lparr>target = q, resetVars = r2, guard = [Ge k 1]\<rparr>])]\<rparr>"
    by (simp add: deterministic_def spec_guard_defs)
next
  show "deterministic specGuardOps
       \<lparr>isMatch = m, next' = [(a, [\<lparr>target = p, resetVars = r1, guard = [Lt k 1]\<rparr>,
                                   \<lparr>target = q, resetVars = r2, guard = [Ge k 1]\<rparr>])]\<rparr>"
    by (simp add: deterministic_def spec_guard_defs)
qed

theorem deterministic_iff_no_overlapping_pair_witness:
  "deterministic specGuardOps
     \<lparr>isMatch = True, next' = [(CHR ''a'', [\<lparr>target = 0, resetVars = [], guard = [Le 0 1]\<rparr>,
                                          \<lparr>target = 1, resetVars = [], guard = [Ge 0 1]\<rparr>])]\<rparr> = False \<and>
   satisfiable specGuardOps (conjunction specGuardOps [Le 0 1] [Ge 0 1]) \<and>
   deterministic specGuardOps
     \<lparr>isMatch = True, next' = [(CHR ''a'', [\<lparr>target = 0, resetVars = [], guard = [Lt 0 1]\<rparr>,
                                          \<lparr>target = 1, resetVars = [], guard = [Ge 0 1]\<rparr>])]\<rparr> \<and>
   \<not> satisfiable specGuardOps (conjunction specGuardOps [Lt 0 1] [Ge 0 1])"
  using deterministic_iff_no_overlapping_pair [of specGuardOps
     "\<lparr>isMatch = True, next' = [(CHR ''a'', [\<lparr>target = 0, resetVars = [], guard = [Le 0 1]\<rparr>,
                                          \<lparr>target = 1, resetVars = [], guard = [Ge 0 1]\<rparr>])]\<rparr>"
     True "CHR ''a''" 0 "[]" 0 1 "[]"]
  by (simp add: deterministic_def spec_guard_defs)

section \<open>Properties of \<^verbatim>\<open>handleOne\<close>\<close>

lemma handleOne_cases:
  "handleOne G N st neighbor transition neighborSuccessor newTransitions matchBounded noMatch =
     (if \<not> match N neighbor transition then (None, newTransitions, matchBounded, noMatch)
      else if \<not> accepted G N neighbor transition
      then (None, newTransitions, matchBounded \<or> upperBounded transition, False)
      else ((if isInternal N neighbor transition then Some (target transition, neighborSuccessor)
             else if allConstant transition (targetClockSizeOf st transition) then None
             else if allOverwritten N neighbor transition then None
             else Some (target transition,
                        makeAfterExternalTransition N neighbor (resetVars transition)
                          (targetClockSizeOf st transition))),
            newTransitions @ [\<lparr>target = target transition, resetVars = resetVars transition,
                               guard = relaxedGuardOf N neighbor transition\<rparr>],
            matchBounded \<or> upperBounded transition, False))"
proof (cases "match N neighbor transition")
  case False
  then show ?thesis by (simp add: handleOne_def)
next
  case m: True
  show ?thesis
  proof (cases "accepted G N neighbor transition")
    case False
    with m show ?thesis by (simp add: handleOne_def accepted_def Let_def)
  next
    case a: True
    show ?thesis
    proof (cases "isInternal N neighbor transition")
      case True
      with m a show ?thesis by (simp add: handleOne_def accepted_def Let_def)
    next
      case False
      with m a show ?thesis by (simp add: handleOne_def accepted_def Let_def)
    qed
  qed
qed

lemma relaxedGuardOf_no_upper:
  "\<not> upperBounded transition \<Longrightarrow>
     relaxedGuardOf N neighbor transition =
       filter (\<lambda>constraint. \<not> isUpperBound constraint) (toRelaxedGuard N neighbor)"
  by (simp add: relaxedGuardOf_def)

text \<open>
  Claim C1. Whatever \<^verbatim>\<open>handleOne\<close> adds to \<^verbatim>\<open>newTransitions\<close> for a transition
  comes after what was there; it adds something exactly when the neighbor condition
  matches the transition and the relaxed guard passes the two-sided test, and the guard
  \<open>g\<close> of what it adds is the relaxed guard, with \<^verbatim>\<open>isWeaker(g, t.guard)\<close> true and
  \<^verbatim>\<open>isWeaker(t.guard, g)\<close> false: never a guard that the two-sided test finds
  equivalent to the guard of the transition.
\<close>

theorem handleOne_emits_only_strictly_weaker:
  assumes "handleOne G N st neighbor transition neighborSuccessor newTransitions matchBounded noMatch =
             (result, newTransitions', matchBounded', noMatch')"
  shows "\<exists>emitted. newTransitions' = newTransitions @ emitted \<and>
           (emitted \<noteq> [] \<longleftrightarrow> match N neighbor transition \<and> accepted G N neighbor transition) \<and>
           (\<forall>e\<in>set emitted.
              guard e = relaxedGuardOf N neighbor transition \<and>
              isWeaker G (guard e) (guard transition) \<and>
              \<not> isWeaker G (guard transition) (guard e) \<and>
              \<not> (isWeaker G (guard e) (guard transition) \<and> isWeaker G (guard transition) (guard e)))"
proof (cases "match N neighbor transition \<and> accepted G N neighbor transition")
  case True
  let ?e = "\<lparr>target = target transition, resetVars = resetVars transition,
              guard = relaxedGuardOf N neighbor transition\<rparr>"
  from True assms have "newTransitions' = newTransitions @ [?e]"
    by (simp add: handleOne_cases)
  moreover from True have "isWeaker G (guard ?e) (guard transition)"
    and "\<not> isWeaker G (guard transition) (guard ?e)"
    by (simp_all add: accepted_def)
  ultimately show ?thesis using True
    by (intro exI [of _ "[?e]"]) simp
next
  case False
  with assms have "newTransitions' = newTransitions @ []"
    by (auto simp: handleOne_cases split: if_splits)
  with False show ?thesis
    by (intro exI [of _ "[]"]) simp
qed

theorem handleOne_emits_only_strictly_weaker_witness:
  "handleOne specGuardOps specNeighborOps storeEx neighborEx externalEx neighborEx [] False True =
     (None, [\<lparr>target = 1, resetVars = [], guard = [Ge 0 1]\<rparr>], False, False) \<and>
   match specNeighborOps neighborEx externalEx \<and>
   accepted specGuardOps specNeighborOps neighborEx externalEx \<and>
   isWeaker specGuardOps [Ge 0 1] [Ge 0 2] \<and> \<not> isWeaker specGuardOps [Ge 0 2] [Ge 0 1]"
  using handleOne_emits_only_strictly_weaker [of specGuardOps specNeighborOps storeEx neighborEx
      externalEx neighborEx "[]" False True None
      "[\<lparr>target = 1, resetVars = [], guard = [Ge 0 1]\<rparr>]" False False]
  by (simp add: handleOne_defs spec_neighbor_defs spec_guard_defs externalEx_def storeEx_def)

text \<open>
  Claim C6. For a matched transition whose guard has no upper-bound constraint, the
  relaxed guard \<^verbatim>\<open>handleOne\<close> works with is the result of \<^verbatim>\<open>toRelaxedGuard()\<close>
  without its upper-bound constraints, so it has none, and neither has the guard of a
  transition that \<^verbatim>\<open>handleOne\<close> adds.
\<close>

theorem relaxed_guard_has_no_new_upper_bound:
  assumes "match N neighbor transition"
    and "\<forall>constraint\<in>set (guard transition). \<not> isUpperBound constraint"
    and "handleOne G N st neighbor transition neighborSuccessor newTransitions matchBounded noMatch =
             (result, newTransitions', matchBounded', noMatch')"
  shows "relaxedGuardOf N neighbor transition =
           filter (\<lambda>constraint. \<not> isUpperBound constraint) (toRelaxedGuard N neighbor) \<and>
         (\<forall>constraint\<in>set (relaxedGuardOf N neighbor transition). \<not> isUpperBound constraint) \<and>
         (\<exists>emitted. newTransitions' = newTransitions @ emitted \<and>
            (\<forall>e\<in>set emitted. guard e = relaxedGuardOf N neighbor transition \<and>
               (\<forall>constraint\<in>set (guard e). \<not> isUpperBound constraint)))"
proof -
  from assms(2) have nub: "\<not> upperBounded transition"
    by (simp add: upperBounded_def list_ex_iff)
  then have rg: "relaxedGuardOf N neighbor transition =
           filter (\<lambda>constraint. \<not> isUpperBound constraint) (toRelaxedGuard N neighbor)"
    by (rule relaxedGuardOf_no_upper)
  then have free: "\<forall>constraint\<in>set (relaxedGuardOf N neighbor transition). \<not> isUpperBound constraint"
    by simp
  have ex: "\<exists>emitted. newTransitions' = newTransitions @ emitted \<and>
            (\<forall>e\<in>set emitted. guard e = relaxedGuardOf N neighbor transition \<and>
               (\<forall>constraint\<in>set (guard e). \<not> isUpperBound constraint))"
  proof (cases "accepted G N neighbor transition")
    case True
    with assms(1,3) have "newTransitions' = newTransitions @
        [\<lparr>target = target transition, resetVars = resetVars transition,
          guard = relaxedGuardOf N neighbor transition\<rparr>]"
      by (simp add: handleOne_cases)
    with free show ?thesis
      by (intro exI [of _ "[\<lparr>target = target transition, resetVars = resetVars transition,
          guard = relaxedGuardOf N neighbor transition\<rparr>]"]) simp
  next
    case False
    with assms(1,3) have "newTransitions' = newTransitions @ []"
      by (simp add: handleOne_cases)
    then show ?thesis
      by (intro exI [of _ "[]"]) simp
  qed
  show ?thesis
    by (rule conjI [OF rg conjI [OF free ex]])
qed

theorem relaxed_guard_has_no_new_upper_bound_witness:
  "match specNeighborOps neighborEx externalEx \<and>
   guard externalEx = [Ge 0 2] \<and> \<not> isUpperBound (Ge 0 2) \<and>
   toRelaxedGuard specNeighborOps neighborEx = [Ge 0 1, Le 0 3] \<and> isUpperBound (Le 0 3) \<and>
   relaxedGuardOf specNeighborOps neighborEx externalEx = [Ge 0 1] \<and> \<not> isUpperBound (Ge 0 1) \<and>
   handleOne specGuardOps specNeighborOps storeEx neighborEx externalEx neighborEx [] False True =
     (None, [\<lparr>target = 1, resetVars = [], guard = [Ge 0 1]\<rparr>], False, False)"
  using relaxed_guard_has_no_new_upper_bound [of specNeighborOps neighborEx externalEx specGuardOps
      storeEx neighborEx "[]" False True None
      "[\<lparr>target = 1, resetVars = [], guard = [Ge 0 1]\<rparr>]" False False]
  by (simp add: handleOne_defs spec_neighbor_defs spec_guard_defs externalEx_def storeEx_def)

text \<open>
  With the guard algebra of the specification an accepted relaxation of a satisfiable
  guard is bounded from above only on clocks that the guard of the transition bounds
  from above, also when that guard has upper bounds and nothing is erased.
\<close>

lemma upperBound_from_constraint:
  "upperBound g k \<noteq> None \<Longrightarrow> \<exists>con\<in>set g. clock_x con = k \<and> isUpperBound con"
proof -
  have "fold (upperStep k) g b \<noteq> None \<Longrightarrow> b = None \<Longrightarrow>
          \<exists>con\<in>set g. clock_x con = k \<and> isUpperBound con" for b
  proof (induction g arbitrary: b)
    case Nil
    then show ?case by simp
  next
    case (Cons con g)
    show ?case
    proof (cases "clock_x con = k \<and> isUpperBound con")
      case True
      then show ?thesis by auto
    next
      case False
      then have "upperStep k con b = b"
        by (auto simp: upperStep_def isUpperBound_def)
      with Cons.prems Cons.IH [of b] show ?thesis by simp
    qed
  qed
  then show "upperBound g k \<noteq> None \<Longrightarrow> \<exists>con\<in>set g. clock_x con = k \<and> isUpperBound con"
    by (simp add: upperBound_def)
qed

lemma accepted_relaxation_bounds_only_bounded_clocks:
  assumes "accepted specGuardOps N neighbor transition"
    and "specSatisfiable (guard transition)"
    and "con \<in> set (relaxedGuardOf N neighbor transition)"
    and "isUpperBound con"
  shows "\<exists>con'\<in>set (guard transition). clock_x con' = clock_x con \<and> isUpperBound con'"
proof -
  from assms(1,2) have "list_all (implied (guard transition)) (relaxedGuardOf N neighbor transition)"
    by (simp add: accepted_def specGuardOps_def specIsWeaker_def)
  with assms(3) have "implied (guard transition) con"
    by (simp add: list_all_iff)
  with assms(4) have "upperBound (guard transition) (clock_x con) \<noteq> None"
    by (auto simp: implied_def isUpperBound_def split: option.splits)
  then show ?thesis by (rule upperBound_from_constraint)
qed

lemma relaxedGuardOf_update [simp]:
  "relaxedGuardOf (N\<lparr>makeAfterExternalTransition := f\<rparr>) neighbor transition =
   relaxedGuardOf N neighbor transition"
  by (simp add: relaxedGuardOf_def)

lemma accepted_update [simp]:
  "accepted G (N\<lparr>makeAfterExternalTransition := f\<rparr>) neighbor transition =
   accepted G N neighbor transition"
  by (simp add: accepted_def)

lemma isInternal_update [simp]:
  "isInternal (N\<lparr>makeAfterExternalTransition := f\<rparr>) neighbor transition =
   isInternal N neighbor transition"
  by (simp add: isInternal_def cong: list.case_cong prod.case_cong ResetValue.case_cong)

text \<open>
  Claim C7. For a matched and accepted transition whose reset map is the one entry that
  sets the clock numbered by the clock count of the neighbor condition to the constant
  \<open>0\<close>, \<^verbatim>\<open>handleOne\<close> returns the pair of the target and \<^verbatim>\<open>neighborSuccessor\<close>,
  beside the one new transition; the result is the same whatever
  \<^verbatim>\<open>makeAfterExternalTransition\<close> would compute, so no other successor is constructed.
\<close>

theorem internal_transition_propagates_neighborSuccessor:
  assumes "match N neighbor transition"
    and "accepted G N neighbor transition"
    and "resetVars transition = [(getClockSize N neighbor, Constant 0)]"
  shows "handleOne G (N\<lparr>makeAfterExternalTransition := f\<rparr>) st neighbor transition neighborSuccessor
           newTransitions matchBounded noMatch =
         (Some (target transition, neighborSuccessor),
          newTransitions @ [\<lparr>target = target transition, resetVars = resetVars transition,
                             guard = relaxedGuardOf N neighbor transition\<rparr>],
          matchBounded \<or> upperBounded transition, False)"
proof -
  from assms(3) have "isInternal N neighbor transition"
    by (simp add: isInternal_def)
  with assms(1,2) show ?thesis
    by (simp add: handleOne_cases)
qed

theorem internal_transition_propagates_neighborSuccessor_witness:
  "match specNeighborOps neighborEx internalEx \<and>
   accepted specGuardOps specNeighborOps neighborEx internalEx \<and>
   resetVars internalEx = [(getClockSize specNeighborOps neighborEx, Constant 0)] \<and>
   handleOne specGuardOps specNeighborOps storeEx neighborEx internalEx (neighborEx\<lparr>clockSize := 2\<rparr>)
       [] False True =
     (Some (1, neighborEx\<lparr>clockSize := 2\<rparr>),
      [\<lparr>target = 1, resetVars = [(1, Constant 0)], guard = [Ge 0 1]\<rparr>], False, False)"
  using internal_transition_propagates_neighborSuccessor [of specNeighborOps neighborEx internalEx
      specGuardOps "makeAfterExternalTransition specNeighborOps" storeEx "neighborEx\<lparr>clockSize := 2\<rparr>"
      "[]" False True]
  by (simp add: handleOne_defs spec_neighbor_defs spec_guard_defs internalEx_def storeEx_def)

lemma overwritten_iff:
  "overwritten transition clock \<longleftrightarrow>
     (\<exists>pair\<in>set (resetVars transition). fst pair = clock \<and>
        (case snd pair of Clock y \<Rightarrow> True | Constant d \<Rightarrow> d = of_int \<lfloor>d\<rfloor>)) \<and>
     (\<forall>pair\<in>set (resetVars transition). snd pair \<noteq> Clock clock)"
proof -
  have found: "find P xs \<noteq> None \<longleftrightarrow> (\<exists>x\<in>set xs. P x)" for P :: "ClockVariables \<times> ResetValue \<Rightarrow> bool" and xs
    by (simp only: find_None_iff) blast
  have unread: "(case v of Clock y \<Rightarrow> y = clock | Constant d \<Rightarrow> False) \<longleftrightarrow> v = Clock clock" for v
    by (cases v) auto
  show ?thesis
    unfolding overwritten_def Let_def found find_None_iff unread by blast
qed

text \<open>
  Claim C8. For a matched and accepted transition that has not the internal shape, if
  every imprecise clock of the neighbor condition is reset to a constant that is an
  integer and no reset reads it, \<^verbatim>\<open>handleOne\<close> returns no successor pair.
\<close>

theorem overwritten_imprecise_clocks_stop_propagation:
  assumes "match N neighbor transition"
    and "accepted G N neighbor transition"
    and "\<not> isInternal N neighbor transition"
    and "\<forall>clock\<in>set (impreciseClocks N neighbor).
           (\<exists>d. (clock, Constant d) \<in> set (resetVars transition) \<and> d = of_int \<lfloor>d\<rfloor>) \<and>
           (\<forall>pair\<in>set (resetVars transition). snd pair \<noteq> Clock clock)"
  shows "fst (handleOne G N st neighbor transition neighborSuccessor newTransitions matchBounded noMatch) = None"
proof -
  have "overwritten transition clock" if "clock \<in> set (impreciseClocks N neighbor)" for clock
  proof -
    from assms(4) that obtain d where d: "(clock, Constant d) \<in> set (resetVars transition)" "d = of_int \<lfloor>d\<rfloor>"
      and unread: "\<forall>pair\<in>set (resetVars transition). snd pair \<noteq> Clock clock"
      by blast
    from d have "\<exists>pair\<in>set (resetVars transition). fst pair = clock \<and>
        (case snd pair of Clock y \<Rightarrow> True | Constant d \<Rightarrow> d = of_int \<lfloor>d\<rfloor>)"
      by (intro bexI [of _ "(clock, Constant d)"]) simp_all
    with unread show ?thesis by (simp add: overwritten_iff)
  qed
  then have "allOverwritten N neighbor transition"
    by (simp add: allOverwritten_def list_all_iff)
  with assms(1-3) show ?thesis
    by (simp add: handleOne_cases)
qed

theorem overwritten_imprecise_clocks_stop_propagation_witness:
  "match specNeighborOps neighborEx overwritingEx \<and>
   accepted specGuardOps specNeighborOps neighborEx overwritingEx \<and>
   \<not> isInternal specNeighborOps neighborEx overwritingEx \<and>
   impreciseClocks specNeighborOps neighborEx = [0] \<and>
   resetVars overwritingEx = [(0, Constant 1)] \<and>
   \<not> allConstant overwritingEx (targetClockSizeOf storeEx overwritingEx) \<and>
   fst (handleOne specGuardOps specNeighborOps storeEx neighborEx overwritingEx neighborEx [] False True) = None"
  using overwritten_imprecise_clocks_stop_propagation [of specNeighborOps neighborEx overwritingEx
      specGuardOps storeEx neighborEx "[]" False True]
  by (simp add: handleOne_defs spec_neighbor_defs spec_guard_defs overwritingEx_def storeEx_def)

section \<open>Properties of \<^verbatim>\<open>mergeNondeterministicBranching\<close>\<close>

subsection \<open>The first loop\<close>

lemma removeWeaker_step:
  "removeWeaker G kept (it2 # rest) =
     removeWeaker G (if \<exists>other\<in>set (kept @ rest). subsumes G other it2 then kept else kept @ [it2]) rest"
  by (auto simp: list_ex_iff subsumes_def)

lemma removeWeaker_subseq:
  "\<exists>ys. removeWeaker G kept xs = kept @ ys \<and> subseq ys xs"
proof (induction xs arbitrary: kept)
  case Nil
  then show ?case by simp
next
  case (Cons it2 rest)
  show ?case
  proof (cases "\<exists>other\<in>set (kept @ rest). subsumes G other it2")
    case True
    from Cons.IH [of kept] obtain ys where "removeWeaker G kept rest = kept @ ys" "subseq ys rest"
      by blast
    with True show ?thesis
      by (simp only: removeWeaker_step if_True) (auto intro: subseq_Cons')
  next
    case False
    from Cons.IH [of "kept @ [it2]"] obtain ys
      where "removeWeaker G (kept @ [it2]) rest = (kept @ [it2]) @ ys" "subseq ys rest"
      by blast
    with False show ?thesis
      by (simp only: removeWeaker_step if_False) (intro exI [of _ "it2 # ys"], simp)
  qed
qed

lemma survivors_Suc:
  "survivors G ts (Suc n) = survivors G ts n @ (if dropped G ts n then [] else [ts ! n])"
  by (simp add: survivors_def)

lemma set_survivors: "set (survivors G ts n) = {ts ! j |j. j < n \<and> \<not> dropped G ts j}"
  by (auto simp: survivors_def)

lemma dropped_iff:
  assumes "i < length ts"
  shows "dropped G ts i \<longleftrightarrow>
     (\<exists>j<length ts. (i < j \<or> (j < i \<and> \<not> dropped G ts j)) \<and> subsumedBy G ts i j)"
proof -
  have "dropped G ts i \<longleftrightarrow>
      (\<exists>j. Suc i \<le> j \<and> j < length ts \<and> subsumedBy G ts i j) \<or>
      (\<exists>j<i. \<not> dropped G ts j \<and> subsumedBy G ts i j)"
    by (subst dropped.simps) (auto simp: list_ex_iff)
  also have "\<dots> \<longleftrightarrow>
      (\<exists>j<length ts. (i < j \<or> (j < i \<and> \<not> dropped G ts j)) \<and> subsumedBy G ts i j)"
    using assms by (meson Suc_le_eq less_trans)
  finally show ?thesis .
qed

lemma dropped_current_vector:
  assumes "n < length ts"
  shows "(\<exists>other\<in>set (survivors G ts n @ drop (Suc n) ts). subsumes G other (ts ! n)) \<longleftrightarrow>
         dropped G ts n"
proof -
  have later: "set (drop (Suc n) ts) = {ts ! j |j. n < j \<and> j < length ts}"
  proof -
    have "set (drop (Suc n) ts) = {drop (Suc n) ts ! k |k. k < length ts - Suc n}"
      by (auto simp: in_set_conv_nth)
    also have "\<dots> = {ts ! j |j. n < j \<and> j < length ts}"
    proof (intro set_eqI iffI; clarify)
      fix k assume "k < length ts - Suc n"
      then show "\<exists>j. drop (Suc n) ts ! k = ts ! j \<and> n < j \<and> j < length ts"
        by (intro exI [of _ "Suc n + k"]) simp
    next
      fix j assume "n < j" "j < length ts"
      then show "\<exists>k. ts ! j = drop (Suc n) ts ! k \<and> k < length ts - Suc n"
        by (intro exI [of _ "j - Suc n"]) simp
    qed
    finally show ?thesis .
  qed
  have "(\<exists>other\<in>set (survivors G ts n @ drop (Suc n) ts). subsumes G other (ts ! n)) \<longleftrightarrow>
        (\<exists>j. ((j < n \<and> \<not> dropped G ts j) \<or> (n < j \<and> j < length ts)) \<and> subsumes G (ts ! j) (ts ! n))"
    unfolding set_append set_survivors later by blast
  also have "\<dots> \<longleftrightarrow> (\<exists>j<length ts. (n < j \<or> (j < n \<and> \<not> dropped G ts j)) \<and> subsumedBy G ts n j)"
    unfolding subsumes_def subsumedBy_def using assms by (meson less_trans)
  finally show ?thesis by (simp add: dropped_iff [OF assms])
qed

lemma removeWeaker_survivors:
  "n \<le> length ts \<Longrightarrow>
     removeWeaker G (survivors G ts n) (drop n ts) = survivors G ts (length ts)"
proof (induction "length ts - n" arbitrary: n)
  case 0
  then show ?case by simp
next
  case (Suc d)
  then have n: "n < length ts" by simp
  then have split: "drop n ts = ts ! n # drop (Suc n) ts"
    by (simp add: Cons_nth_drop_Suc)
  from Suc.hyps(2) have "d = length ts - Suc n" by simp
  from Suc.hyps(1) [OF this] n
  have IH: "removeWeaker G (survivors G ts (Suc n)) (drop (Suc n) ts) = survivors G ts (length ts)"
    by simp
  have "removeWeaker G (survivors G ts n) (drop n ts) =
        removeWeaker G (if dropped G ts n then survivors G ts n else survivors G ts n @ [ts ! n])
          (drop (Suc n) ts)"
    unfolding split removeWeaker_step dropped_current_vector [OF n] ..
  also have "(if dropped G ts n then survivors G ts n else survivors G ts n @ [ts ! n]) =
      survivors G ts (Suc n)"
    by (simp add: survivors_Suc)
  finally show ?case using IH by simp
qed

lemma strictly_weaker_dropped:
  assumes trans: "\<forall>a b c. isWeaker G a b \<longrightarrow> isWeaker G b c \<longrightarrow> isWeaker G a c"
    and i: "i < length ts" and j: "j < length ts"
    and tj: "target (ts ! j) = target (ts ! i)"
    and wj: "isWeaker G (guard (ts ! j)) (guard (ts ! i))"
    and sj: "\<not> isWeaker G (guard (ts ! i)) (guard (ts ! j))"
  shows "dropped G ts i"
proof (rule ccontr)
  assume kept: "\<not> dropped G ts i"
  define S where "S = {k. k < length ts \<and> target (ts ! k) = target (ts ! i) \<and>
      isWeaker G (guard (ts ! k)) (guard (ts ! i)) \<and> \<not> isWeaker G (guard (ts ! i)) (guard (ts ! k))}"
  have fin: "finite S" unfolding S_def by simp
  from j tj wj sj have "j \<in> S" unfolding S_def by simp
  then have ne: "S \<noteq> {}" by blast
  define m where "m = Max S"
  from fin ne have m: "m \<in> S" unfolding m_def by (rule Max_in)
  have sub: "subsumedBy G ts i k" if "k \<in> S" for k
  proof -
    from that have "ts ! i \<noteq> ts ! k" unfolding S_def by auto
    with that show ?thesis unfolding S_def subsumedBy_def by simp
  qed
  have below: "k < i \<and> dropped G ts k" if "k \<in> S" for k
  proof -
    from that have k: "k < length ts" unfolding S_def by simp
    from sub [OF that] have s: "subsumedBy G ts i k" .
    then have "k \<noteq> i" unfolding subsumedBy_def by auto
    moreover from kept dropped_iff [OF i, of G] k s
    have "\<not> i < k" and "\<not> (k < i \<and> \<not> dropped G ts k)" by blast+
    ultimately show ?thesis by auto
  qed
  from m have mlen: "m < length ts" unfolding S_def by simp
  from below [OF m] have "dropped G ts m" by simp
  with dropped_iff [OF mlen, of G] obtain k where k: "k < length ts"
    and pos: "m < k \<or> (k < m \<and> \<not> dropped G ts k)" and s: "subsumedBy G ts m k"
    by blast
  from s have tk: "target (ts ! k) = target (ts ! m)"
    and wk: "isWeaker G (guard (ts ! k)) (guard (ts ! m))"
    unfolding subsumedBy_def by simp_all
  from m have tm: "target (ts ! m) = target (ts ! i)"
    and wm: "isWeaker G (guard (ts ! m)) (guard (ts ! i))"
    and sm: "\<not> isWeaker G (guard (ts ! i)) (guard (ts ! m))"
    unfolding S_def by simp_all
  from trans wk wm have wki: "isWeaker G (guard (ts ! k)) (guard (ts ! i))" by blast
  have "\<not> isWeaker G (guard (ts ! i)) (guard (ts ! k))"
  proof
    assume "isWeaker G (guard (ts ! i)) (guard (ts ! k))"
    with trans wk have "isWeaker G (guard (ts ! i)) (guard (ts ! m))" by blast
    with sm show False by simp
  qed
  with k tk tm wki have kS: "k \<in> S" unfolding S_def by simp
  with fin have "k \<le> m" unfolding m_def by (rule Max_ge)
  with pos have "\<not> dropped G ts k" by auto
  with below [OF kS] show False by simp
qed

lemma specIsWeaker_trans:
  "\<forall>a b c. isWeaker specGuardOps a b \<longrightarrow> isWeaker specGuardOps b c \<longrightarrow> isWeaker specGuardOps a c"
  by (simp add: specGuardOps_def specIsWeaker_iff)

text \<open>
  Claim C3, as the code has it. The first loop only removes transitions, and what it
  leaves are the transitions at the positions that are not dropped, in their order. The
  transition at a position is dropped exactly when another position, either after it, or
  before it and not dropped itself, holds a transition \<open>other\<close> that differs from it as
  a value, has the same target and satisfies \<^verbatim>\<open>isWeaker(other.guard, this.guard)\<close>. The
  loop does not ask for \<^verbatim>\<open>isWeaker(this.guard, other.guard)\<close> to be false. When
  \<^verbatim>\<open>isWeaker\<close> is transitive, as it is for the guards of the specification, a
  transition is dropped whenever some transition of the vector has the same target and a
  strictly weaker guard.
\<close>

theorem removeWeaker_drops_exactly:
  "removeWeaker G [] ts = map ((!) ts) (filter (\<lambda>i. \<not> dropped G ts i) [0..<length ts]) \<and>
   subseq (removeWeaker G [] ts) ts \<and>
   (i < length ts \<longrightarrow>
      (dropped G ts i \<longleftrightarrow>
         (\<exists>j<length ts. (i < j \<or> (j < i \<and> \<not> dropped G ts j)) \<and>
            ts ! i \<noteq> ts ! j \<and> isWeaker G (guard (ts ! j)) (guard (ts ! i)) \<and>
            target (ts ! j) = target (ts ! i)))) \<and>
   ((\<forall>a b c. isWeaker G a b \<longrightarrow> isWeaker G b c \<longrightarrow> isWeaker G a c) \<longrightarrow>
    i < length ts \<longrightarrow> k < length ts \<longrightarrow>
    target (ts ! k) = target (ts ! i) \<longrightarrow>
    isWeaker G (guard (ts ! k)) (guard (ts ! i)) \<longrightarrow>
    \<not> isWeaker G (guard (ts ! i)) (guard (ts ! k)) \<longrightarrow>
      dropped G ts i) \<and>
   (\<forall>a b c. isWeaker specGuardOps a b \<longrightarrow> isWeaker specGuardOps b c \<longrightarrow>
              isWeaker specGuardOps a c)"
proof (intro conjI impI)
  from removeWeaker_survivors [of 0 ts G]
  show "removeWeaker G [] ts = map ((!) ts) (filter (\<lambda>i. \<not> dropped G ts i) [0..<length ts])"
    by (simp add: survivors_def)
next
  from removeWeaker_subseq [of G "[]" ts] show "subseq (removeWeaker G [] ts) ts"
    by auto
next
  assume "i < length ts"
  from dropped_iff [OF this, of G]
  show "dropped G ts i \<longleftrightarrow>
      (\<exists>j<length ts. (i < j \<or> (j < i \<and> \<not> dropped G ts j)) \<and>
         ts ! i \<noteq> ts ! j \<and> isWeaker G (guard (ts ! j)) (guard (ts ! i)) \<and>
         target (ts ! j) = target (ts ! i))"
    by (simp add: subsumedBy_def)
next
  assume "\<forall>a b c. isWeaker G a b \<longrightarrow> isWeaker G b c \<longrightarrow> isWeaker G a c"
    and "i < length ts" and "k < length ts"
    and "target (ts ! k) = target (ts ! i)"
    and "isWeaker G (guard (ts ! k)) (guard (ts ! i))"
    and "\<not> isWeaker G (guard (ts ! i)) (guard (ts ! k))"
  then show "dropped G ts i" by (rule strictly_weaker_dropped)
next
  show "\<forall>a b c. isWeaker specGuardOps a b \<longrightarrow> isWeaker specGuardOps b c \<longrightarrow>
              isWeaker specGuardOps a c"
    by (rule specIsWeaker_trans)
qed

theorem removeWeaker_drops_exactly_witness:
  "removeWeaker specGuardOps [] [wideEx, chainEx1] = [wideEx] \<and>
   dropped specGuardOps [wideEx, chainEx1] 1 \<and>
   \<not> dropped specGuardOps [wideEx, chainEx1] 0 \<and>
   [wideEx, chainEx1] ! 1 \<noteq> [wideEx, chainEx1] ! 0 \<and>
   isWeaker specGuardOps (guard ([wideEx, chainEx1] ! 0)) (guard ([wideEx, chainEx1] ! 1)) \<and>
   \<not> isWeaker specGuardOps (guard ([wideEx, chainEx1] ! 1)) (guard ([wideEx, chainEx1] ! 0)) \<and>
   target ([wideEx, chainEx1] ! 0) = target ([wideEx, chainEx1] ! 1) \<and>
   removeWeaker specGuardOps [] [chainEx1, wideEx] = [wideEx] \<and>
   removeWeaker specGuardOps [] [equivalentEx1, equivalentEx2, equivalentEx2] =
     [equivalentEx2, equivalentEx2] \<and>
   dropped specGuardOps [equivalentEx1, equivalentEx2, equivalentEx2] 0 \<and>
   \<not> dropped specGuardOps [equivalentEx1, equivalentEx2, equivalentEx2] 1 \<and>
   \<not> dropped specGuardOps [equivalentEx1, equivalentEx2, equivalentEx2] 2 \<and>
   isWeaker specGuardOps (guard equivalentEx1) (guard equivalentEx2) \<and>
   target equivalentEx1 = target equivalentEx2 \<and>
   equivalentEx1 \<noteq> equivalentEx2"
proof -
  have d0: "\<not> dropped specGuardOps [wideEx, chainEx1] 0"
    by (subst dropped.simps) (simp add: subsumedBy_def wideEx_def chainEx1_def spec_guard_defs)
  have facts: "[wideEx, chainEx1] ! 1 \<noteq> [wideEx, chainEx1] ! 0"
    "isWeaker specGuardOps (guard ([wideEx, chainEx1] ! 0)) (guard ([wideEx, chainEx1] ! 1))"
    "\<not> isWeaker specGuardOps (guard ([wideEx, chainEx1] ! 1)) (guard ([wideEx, chainEx1] ! 0))"
    "target ([wideEx, chainEx1] ! 0) = target ([wideEx, chainEx1] ! 1)"
    by (simp_all add: wideEx_def chainEx1_def spec_guard_defs)
  have "\<exists>j<length [wideEx, chainEx1].
      ((1::nat) < j \<or> (j < 1 \<and> \<not> dropped specGuardOps [wideEx, chainEx1] j)) \<and>
      [wideEx, chainEx1] ! 1 \<noteq> [wideEx, chainEx1] ! j \<and>
      isWeaker specGuardOps (guard ([wideEx, chainEx1] ! j)) (guard ([wideEx, chainEx1] ! 1)) \<and>
      target ([wideEx, chainEx1] ! j) = target ([wideEx, chainEx1] ! 1)"
    using d0 facts by (intro exI [of _ 0]) simp
  with removeWeaker_drops_exactly [of specGuardOps "[wideEx, chainEx1]" 1 0]
  have d1: "dropped specGuardOps [wideEx, chainEx1] 1"
    and rw: "removeWeaker specGuardOps [] [wideEx, chainEx1] =
      map ((!) [wideEx, chainEx1])
        (filter (\<lambda>i. \<not> dropped specGuardOps [wideEx, chainEx1] i) [0..<length [wideEx, chainEx1]])"
    by simp_all
  have upt2: "[0..<length [wideEx, chainEx1]] = [0, 1]" by (simp add: upt_rec)
  from rw d0 d1 have r1: "removeWeaker specGuardOps [] [wideEx, chainEx1] = [wideEx]"
    unfolding upt2 by simp
  have r2: "removeWeaker specGuardOps [] [chainEx1, wideEx] = [wideEx]"
    by (simp add: wideEx_def chainEx1_def spec_guard_defs)
  have r3: "removeWeaker specGuardOps [] [equivalentEx1, equivalentEx2, equivalentEx2] =
     [equivalentEx2, equivalentEx2]"
    by (simp add: equivalentEx1_def equivalentEx2_def spec_guard_defs)
  have e0: "dropped specGuardOps [equivalentEx1, equivalentEx2, equivalentEx2] 0"
    by (subst dropped.simps)
      (simp add: subsumedBy_def equivalentEx1_def equivalentEx2_def spec_guard_defs upt_rec)
  have e1: "\<not> dropped specGuardOps [equivalentEx1, equivalentEx2, equivalentEx2] 1"
    using e0 by (subst dropped.simps) (simp add: subsumedBy_def upt_rec)
  have e2: "\<not> dropped specGuardOps [equivalentEx1, equivalentEx2, equivalentEx2] 2"
    using e0 e1 by (subst dropped.simps) (simp add: subsumedBy_def upt_rec)
  have eq: "isWeaker specGuardOps (guard equivalentEx1) (guard equivalentEx2)"
    "target equivalentEx1 = target equivalentEx2" "equivalentEx1 \<noteq> equivalentEx2"
    by (simp_all add: equivalentEx1_def equivalentEx2_def spec_guard_defs)
  from r1 d1 d0 facts r2 r3 e0 e1 e2 eq show ?thesis by blast
qed

text \<open>
  Against claim C3 as stated: of two transitions with the same guard and target and
  different reset maps the first is removed by the first loop, though each guard is
  weaker than the other; the operation leaves the second one.
\<close>

theorem removeWeaker_drops_equivalent_counterexample:
  "removeWeaker specGuardOps [] [equivalentEx1, equivalentEx2] = [equivalentEx2] \<and>
   equivalentEx1 \<noteq> equivalentEx2 \<and>
   target equivalentEx2 = target equivalentEx1 \<and>
   isWeaker specGuardOps (guard equivalentEx2) (guard equivalentEx1) \<and>
   isWeaker specGuardOps (guard equivalentEx1) (guard equivalentEx2) \<and>
   mergeNondeterministicBranching False specGuardOps storeEx
     \<lparr>isMatch = True, next' = [(CHR ''a'', [equivalentEx1, equivalentEx2])]\<rparr> =
     Inr \<lparr>isMatch = True, next' = [(CHR ''a'', [equivalentEx2])]\<rparr>"
  by (simp add: merge_defs equivalentEx1_def equivalentEx2_def spec_guard_defs)

subsection \<open>The second loop\<close>

lemma mergePair_guard: "guard (mergePair G it2 it3) = unionHull G [guard it2, guard it3]"
  by (simp add: mergePair_def)

lemma mergePair_target_resets:
  "(target (mergePair G it2 it3), resetVars (mergePair G it2 it3)) =
     (if impreciseConstantAssignSize G (resetVars it2) < impreciseConstantAssignSize G (resetVars it3)
      then (target it3, resetVars it3) else (target it2, resetVars it2))"
  by (simp add: mergePair_def)

lemma encounterInto_satisfiable:
  "encounterInto ndebug G st it2 rest p \<Longrightarrow>
     satisfiable G (conjunction G (guard (fst p)) (guard (snd p)))"
  by (induction rule: encounterInto.induct) simp_all

lemma encounter_satisfiable:
  "encounter ndebug G st ts p \<Longrightarrow> satisfiable G (conjunction G (guard (fst p)) (guard (snd p)))"
  by (induction rule: encounter.induct) (simp_all add: encounterInto_satisfiable)

lemma encounterInto_aborts:
  "encounterInto ndebug G st it2 rest p \<Longrightarrow> \<not> ndebug \<Longrightarrow>
     isMatch (st (target (fst p))) \<noteq> isMatch (st (target (snd p))) \<Longrightarrow>
     mergeInto ndebug G st it2 rest = Inl AssertionFailed"
  by (induction rule: encounterInto.induct) simp_all

lemma mergeInto_abort_encounter:
  "mergeInto ndebug G st it2 rest = Inl e \<Longrightarrow>
     \<not> ndebug \<and>
     (\<exists>p. encounterInto ndebug G st it2 rest p \<and>
         isMatch (st (target (fst p))) \<noteq> isMatch (st (target (snd p))))"
proof (induction rest arbitrary: it2)
  case Nil
  then show ?case by simp
next
  case (Cons it3 rest)
  show ?case
  proof (cases "satisfiable G (conjunction G (guard it2) (guard it3))")
    case sat: True
    show ?thesis
    proof (cases "ndebug \<or> isMatch (st (target it2)) = isMatch (st (target it3))")
      case True
      with sat Cons.prems have "mergeInto ndebug G st (mergePair G it2 it3) rest = Inl e" by simp
      from Cons.IH [OF this] obtain p where "\<not> ndebug"
        and "encounterInto ndebug G st (mergePair G it2 it3) rest p"
        and "isMatch (st (target (fst p))) \<noteq> isMatch (st (target (snd p)))" by blast
      with sat True show ?thesis by (blast intro: encounterInto.merged)
    next
      case False
      then have "\<not> ndebug" and "isMatch (st (target it2)) \<noteq> isMatch (st (target it3))"
        by simp_all
      with sat show ?thesis
        by (intro conjI exI [of _ "(it2, it3)"]) (simp_all add: encounterInto.found)
    qed
  next
    case unsat: False
    with Cons.prems have "mergeInto ndebug G st it2 rest = Inl e"
      by (simp split: sum.splits prod.splits)
    from Cons.IH [OF this] obtain p where "\<not> ndebug" and "encounterInto ndebug G st it2 rest p"
      and "isMatch (st (target (fst p))) \<noteq> isMatch (st (target (snd p)))" by blast
    with unsat show ?thesis by (blast intro: encounterInto.skipped)
  qed
qed

lemma encounter_aborts:
  "encounter ndebug G st ts p \<Longrightarrow> \<not> ndebug \<Longrightarrow>
     isMatch (st (target (fst p))) \<noteq> isMatch (st (target (snd p))) \<Longrightarrow>
     mergePairs ndebug G st ts = Inl AssertionFailed"
proof (induction rule: encounter.induct)
  case (inner it2 rest p)
  then show ?case by (simp add: encounterInto_aborts)
next
  case (outer it2 rest it2' rest' p)
  then show ?case by simp
qed

lemma mergePairs_abort_encounter:
  "mergePairs ndebug G st ts = Inl e \<Longrightarrow>
     \<not> ndebug \<and>
     (\<exists>p. encounter ndebug G st ts p \<and>
         isMatch (st (target (fst p))) \<noteq> isMatch (st (target (snd p))))"
proof (induction ndebug G st ts rule: mergePairs.induct)
  case (1 ndebug G st)
  then show ?case by simp
next
  case (2 ndebug G st it2 rest)
  show ?case
  proof (cases "mergeInto ndebug G st it2 rest")
    case (Inl e')
    from mergeInto_abort_encounter [OF this] show ?thesis
      by (blast intro: encounter.inner)
  next
    case (Inr r)
    obtain it2' rest' where r: "r = (it2', rest')" by (cases r)
    with Inr "2.prems" have "mergePairs ndebug G st rest' = Inl e"
      by (simp split: sum.splits)
    from "2.IH" [OF Inr r [symmetric] this] Inr r show ?thesis
      by (blast intro: encounter.outer)
  qed
qed

lemma error_is_AssertionFailed: "(e :: error) = AssertionFailed"
  by (cases e) simp

lemma mergeActions_abort_iff:
  "mergeActions ndebug G st actions = Inl AssertionFailed \<longleftrightarrow>
     (\<exists>(action, transitions)\<in>set actions. mergeTransitions ndebug G st transitions = Inl AssertionFailed)"
proof (induction actions)
  case Nil
  then show ?case by simp
next
  case (Cons a actions)
  obtain action transitions where a: "a = (action, transitions)" by (cases a)
  show ?case
  proof (cases "mergeTransitions ndebug G st transitions")
    case (Inl e)
    with a show ?thesis by (simp add: error_is_AssertionFailed [of e])
  next
    case ts': (Inr ts')
    show ?thesis
    proof (cases "mergeActions ndebug G st actions")
      case (Inl e)
      with a ts' Cons.IH show ?thesis by (simp add: error_is_AssertionFailed [of e])
    next
      case (Inr rest')
      with a ts' Cons.IH show ?thesis by simp
    qed
  qed
qed

lemma mergeTransitions_abort_iff:
  "mergeTransitions ndebug G st transitions = Inl AssertionFailed \<longleftrightarrow>
     \<not> ndebug \<and>
     (\<exists>it2 it3. encounter ndebug G st (removeWeaker G [] transitions) (it2, it3) \<and>
        isMatch (st (target it2)) \<noteq> isMatch (st (target it3)))"
proof
  assume "mergeTransitions ndebug G st transitions = Inl AssertionFailed"
  then have "mergePairs ndebug G st (removeWeaker G [] transitions) = Inl AssertionFailed"
    by (simp add: mergeTransitions_def)
  from mergePairs_abort_encounter [OF this] obtain p where nd: "\<not> ndebug"
    and enc: "encounter ndebug G st (removeWeaker G [] transitions) p"
    and dis: "isMatch (st (target (fst p))) \<noteq> isMatch (st (target (snd p)))"
    by blast
  obtain it2 it3 where p: "p = (it2, it3)" by (cases p)
  from nd enc dis show "\<not> ndebug \<and>
     (\<exists>it2 it3. encounter ndebug G st (removeWeaker G [] transitions) (it2, it3) \<and>
        isMatch (st (target it2)) \<noteq> isMatch (st (target it3)))"
    unfolding p by (intro conjI exI [of _ it2] exI [of _ it3]) simp_all
next
  assume "\<not> ndebug \<and>
     (\<exists>it2 it3. encounter ndebug G st (removeWeaker G [] transitions) (it2, it3) \<and>
        isMatch (st (target it2)) \<noteq> isMatch (st (target it3)))"
  then obtain it2 it3 where "\<not> ndebug"
    and "encounter ndebug G st (removeWeaker G [] transitions) (it2, it3)"
    and "isMatch (st (target it2)) \<noteq> isMatch (st (target it3))" by blast
  from encounter_aborts [OF this(2,1)] this(3)
  show "mergeTransitions ndebug G st transitions = Inl AssertionFailed"
    by (simp add: mergeTransitions_def)
qed

text \<open>
  Claim C5, as the code has it. The operation aborts exactly when assertions are compiled
  in (\<^verbatim>\<open>NDEBUG\<close> is not defined) and, for some action, the second loop comes to two
  transitions with jointly satisfiable guards whose targets differ in \<^verbatim>\<open>isMatch\<close>. At
  such a pair the build with assertions aborts; the build without them merges the pair as
  it merges any other and goes on.
\<close>

theorem merge_aborts_iff_asserting_and_targets_disagree:
  "(mergeNondeterministicBranching ndebug G st this = Inl AssertionFailed \<longleftrightarrow>
      \<not> ndebug \<and>
      (\<exists>(action, transitions)\<in>set (next' this). \<exists>it2 it3.
          encounter ndebug G st (removeWeaker G [] transitions) (it2, it3) \<and>
          isMatch (st (target it2)) \<noteq> isMatch (st (target it3)))) \<and>
   (encounter ndebug G st ts (it2, it3) \<longrightarrow> satisfiable G (conjunction G (guard it2) (guard it3))) \<and>
   (satisfiable G (conjunction G (guard it2) (guard it3)) \<longrightarrow>
    isMatch (st (target it2)) \<noteq> isMatch (st (target it3)) \<longrightarrow>
      mergeInto ndebug G st it2 (it3 # rest) =
        (if ndebug then mergeInto ndebug G st (mergePair G it2 it3) rest else Inl AssertionFailed))"
proof (intro conjI impI)
  have "mergeActions ndebug G st (next' this) = Inl AssertionFailed \<longleftrightarrow>
      \<not> ndebug \<and>
      (\<exists>(action, transitions)\<in>set (next' this). \<exists>it2 it3.
          encounter ndebug G st (removeWeaker G [] transitions) (it2, it3) \<and>
          isMatch (st (target it2)) \<noteq> isMatch (st (target it3)))"
    unfolding mergeActions_abort_iff mergeTransitions_abort_iff by blast
  moreover have "mergeNondeterministicBranching ndebug G st this = Inl AssertionFailed \<longleftrightarrow>
      mergeActions ndebug G st (next' this) = Inl AssertionFailed"
    by (simp add: mergeNondeterministicBranching_def error_is_AssertionFailed split: sum.splits)
  ultimately show "mergeNondeterministicBranching ndebug G st this = Inl AssertionFailed \<longleftrightarrow>
      \<not> ndebug \<and>
      (\<exists>(action, transitions)\<in>set (next' this). \<exists>it2 it3.
          encounter ndebug G st (removeWeaker G [] transitions) (it2, it3) \<and>
          isMatch (st (target it2)) \<noteq> isMatch (st (target it3)))"
    by simp
next
  assume "encounter ndebug G st ts (it2, it3)"
  from encounter_satisfiable [OF this]
  show "satisfiable G (conjunction G (guard it2) (guard it3))" by simp
next
  assume "satisfiable G (conjunction G (guard it2) (guard it3))"
    and "isMatch (st (target it2)) \<noteq> isMatch (st (target it3))"
  then show "mergeInto ndebug G st it2 (it3 # rest) =
        (if ndebug then mergeInto ndebug G st (mergePair G it2 it3) rest else Inl AssertionFailed)"
    by simp
qed

theorem merge_aborts_iff_asserting_and_targets_disagree_witness:
  "mergeNondeterministicBranching False specGuardOps storeEx
     \<lparr>isMatch = True, next' = [(CHR ''a'', [overlapEx1, rejectingEx])]\<rparr> = Inl AssertionFailed \<and>
   removeWeaker specGuardOps [] [overlapEx1, rejectingEx] = [overlapEx1, rejectingEx] \<and>
   encounter False specGuardOps storeEx [overlapEx1, rejectingEx] (overlapEx1, rejectingEx) \<and>
   satisfiable specGuardOps (conjunction specGuardOps (guard overlapEx1) (guard rejectingEx)) \<and>
   isMatch (storeEx (target overlapEx1)) \<and> \<not> isMatch (storeEx (target rejectingEx)) \<and>
   mergeInto False specGuardOps storeEx overlapEx1 [rejectingEx] = Inl AssertionFailed"
proof -
  have sat: "satisfiable specGuardOps (conjunction specGuardOps (guard overlapEx1) (guard rejectingEx))"
    by (simp add: merge_ex_defs spec_guard_defs)
  then have enc: "encounter False specGuardOps storeEx [overlapEx1, rejectingEx] (overlapEx1, rejectingEx)"
    by (intro encounter.inner encounterInto.found)
  have rw: "removeWeaker specGuardOps [] [overlapEx1, rejectingEx] = [overlapEx1, rejectingEx]"
    by (simp add: merge_ex_defs spec_guard_defs)
  have m: "isMatch (storeEx (target overlapEx1))" "\<not> isMatch (storeEx (target rejectingEx))"
    by (simp_all add: merge_ex_defs)
  have "\<exists>(action, transitions)\<in>set (next' \<lparr>isMatch = True, next' = [(CHR ''a'', [overlapEx1, rejectingEx])]\<rparr>).
          \<exists>it2 it3. encounter False specGuardOps storeEx (removeWeaker specGuardOps [] transitions) (it2, it3) \<and>
            isMatch (storeEx (target it2)) \<noteq> isMatch (storeEx (target it3))"
  proof (rule bexI [of _ "(CHR ''a'', [overlapEx1, rejectingEx])"])
    show "(CHR ''a'', [overlapEx1, rejectingEx]) \<in>
        set (next' \<lparr>isMatch = True, next' = [(CHR ''a'', [overlapEx1, rejectingEx])]\<rparr>)"
      by simp
    from enc m have "encounter False specGuardOps storeEx
          (removeWeaker specGuardOps [] [overlapEx1, rejectingEx]) (overlapEx1, rejectingEx) \<and>
        isMatch (storeEx (target overlapEx1)) \<noteq> isMatch (storeEx (target rejectingEx))"
      unfolding rw by simp
    then show "case (CHR ''a'', [overlapEx1, rejectingEx]) of
        (action, transitions) \<Rightarrow>
          \<exists>it2 it3. encounter False specGuardOps storeEx (removeWeaker specGuardOps [] transitions) (it2, it3) \<and>
            isMatch (storeEx (target it2)) \<noteq> isMatch (storeEx (target it3))"
      unfolding prod.case by blast
  qed
  with merge_aborts_iff_asserting_and_targets_disagree [of False specGuardOps storeEx
      "\<lparr>isMatch = True, next' = [(CHR ''a'', [overlapEx1, rejectingEx])]\<rparr>"
      "[overlapEx1, rejectingEx]" overlapEx1 rejectingEx "[]"] sat m
  have "mergeNondeterministicBranching False specGuardOps storeEx
     \<lparr>isMatch = True, next' = [(CHR ''a'', [overlapEx1, rejectingEx])]\<rparr> = Inl AssertionFailed"
    and "mergeInto False specGuardOps storeEx overlapEx1 [rejectingEx] = Inl AssertionFailed"
    by simp_all
  with rw enc sat m show ?thesis by simp
qed

text \<open>
  Against claim C5 as stated: with \<^verbatim>\<open>NDEBUG\<close> defined, two transitions with jointly
  satisfiable guards, one to an accepting state and one to a state that is not accepting,
  are merged; the operation returns, and the transition that is left has the target of
  the first.
\<close>

theorem merge_without_assertions_merges_disagreeing_counterexample:
  "mergeNondeterministicBranching True specGuardOps storeEx
     \<lparr>isMatch = True, next' = [(CHR ''a'', [overlapEx1, rejectingEx])]\<rparr> =
     Inr \<lparr>isMatch = True,
          next' = [(CHR ''a'', [\<lparr>target = 1, resetVars = [(0, Constant (1/2))], guard = [Le 0 3]\<rparr>])]\<rparr> \<and>
   removeWeaker specGuardOps [] [overlapEx1, rejectingEx] = [overlapEx1, rejectingEx] \<and>
   satisfiable specGuardOps (conjunction specGuardOps (guard overlapEx1) (guard rejectingEx)) \<and>
   isMatch (storeEx (target overlapEx1)) \<and> \<not> isMatch (storeEx (target rejectingEx))"
  by (simp add: merge_defs merge_ex_defs spec_guard_defs)

lemma mergedGroup_Nil [simp]: "mergedGroup G (l, []) = l"
  by (simp add: mergedGroup_def)

lemma mergedGroup_Cons [simp]: "mergedGroup G (l, x # xs) = mergedGroup G (mergePair G l x, xs)"
  by (simp add: mergedGroup_def)

lemma absorbedInTurn_iff:
  "absorbedInTurn ndebug G st grp \<longleftrightarrow>
     (\<forall>k<length (snd grp).
        satisfiable G (conjunction G (guard (mergedGroup G (fst grp, take k (snd grp))))
                                     (guard (snd grp ! k))) \<and>
        (ndebug \<or> isMatch (st (target (mergedGroup G (fst grp, take k (snd grp))))) =
                   isMatch (st (target (snd grp ! k)))))"
  unfolding absorbedInTurn_def list_all_iff by auto

lemma passedOver_iff:
  "passedOver G grp x \<longleftrightarrow>
     (\<exists>k\<le>length (snd grp).
        \<not> satisfiable G (conjunction G (guard (mergedGroup G (fst grp, take k (snd grp)))) (guard x)))"
proof -
  have "set [0..<Suc (length (snd grp))] = {k. k \<le> length (snd grp)}" by auto
  then show ?thesis unfolding passedOver_def list_ex_iff by blast
qed

lemma absorbedInTurn_Nil [simp]: "absorbedInTurn ndebug G st (l, [])"
  by (simp add: absorbedInTurn_def)

lemma absorbedInTurn_Cons:
  "absorbedInTurn ndebug G st (l, x # xs) \<longleftrightarrow>
     satisfiable G (conjunction G (guard l) (guard x)) \<and>
     (ndebug \<or> isMatch (st (target l)) = isMatch (st (target x))) \<and>
     absorbedInTurn ndebug G st (mergePair G l x, xs)"
  by (simp add: absorbedInTurn_iff All_less_Suc2)

lemma passedOver_first:
  "\<not> satisfiable G (conjunction G (guard l) (guard y)) \<Longrightarrow> passedOver G (l, xs) y"
  unfolding passedOver_iff by (intro exI [of _ 0]) simp

lemma passedOver_later:
  assumes "passedOver G (mergePair G l x, xs) y"
  shows "passedOver G (l, x # xs) y"
proof -
  from assms obtain k where "k \<le> length xs"
    and "\<not> satisfiable G (conjunction G (guard (mergedGroup G (mergePair G l x, take k xs))) (guard y))"
    by (auto simp: passedOver_iff)
  then show ?thesis
    unfolding passedOver_iff by (intro exI [of _ "Suc k"]) simp
qed

lemma mergeInto_group:
  "mergeInto ndebug G st it2 rest = Inr (it2', rest') \<Longrightarrow>
     \<exists>absorbed. it2' = mergedGroup G (it2, absorbed) \<and>
        mset rest = mset absorbed + mset rest' \<and>
        subseq rest' rest \<and>
        absorbedInTurn ndebug G st (it2, absorbed) \<and>
        (\<forall>y\<in>set rest'. passedOver G (it2, absorbed) y)"
proof (induction rest arbitrary: it2 it2' rest')
  case Nil
  then show ?case by (intro exI [of _ "[]"]) simp
next
  case (Cons it3 rest)
  show ?case
  proof (cases "satisfiable G (conjunction G (guard it2) (guard it3))")
    case sat: True
    with Cons.prems have agree: "ndebug \<or> isMatch (st (target it2)) = isMatch (st (target it3))"
      and "mergeInto ndebug G st (mergePair G it2 it3) rest = Inr (it2', rest')"
      by (simp_all split: if_splits)
    from Cons.IH [OF this(2)] obtain absorbed where
      a: "it2' = mergedGroup G (mergePair G it2 it3, absorbed)"
      "mset rest = mset absorbed + mset rest'"
      "subseq rest' rest"
      "absorbedInTurn ndebug G st (mergePair G it2 it3, absorbed)"
      "\<forall>y\<in>set rest'. passedOver G (mergePair G it2 it3, absorbed) y"
      by blast
    show ?thesis
    proof (intro exI [of _ "it3 # absorbed"] conjI)
      from a(1) show "it2' = mergedGroup G (it2, it3 # absorbed)" by simp
      from a(2) show "mset (it3 # rest) = mset (it3 # absorbed) + mset rest'" by simp
      from a(3) show "subseq rest' (it3 # rest)" by (rule list_emb_Cons)
      from sat agree a(4) show "absorbedInTurn ndebug G st (it2, it3 # absorbed)"
        by (simp add: absorbedInTurn_Cons)
      from a(5) show "\<forall>y\<in>set rest'. passedOver G (it2, it3 # absorbed) y"
        by (blast intro: passedOver_later)
    qed
  next
    case unsat: False
    with Cons.prems obtain r where r: "mergeInto ndebug G st it2 rest = Inr (it2', r)"
      and rest': "rest' = it3 # r"
      by (auto split: sum.splits)
    from Cons.IH [OF r] obtain absorbed where
      a: "it2' = mergedGroup G (it2, absorbed)"
      "mset rest = mset absorbed + mset r"
      "subseq r rest"
      "absorbedInTurn ndebug G st (it2, absorbed)"
      "\<forall>y\<in>set r. passedOver G (it2, absorbed) y"
      by blast
    show ?thesis
    proof (intro exI [of _ absorbed] conjI)
      from a(1) show "it2' = mergedGroup G (it2, absorbed)" .
      from a(2) rest' show "mset (it3 # rest) = mset absorbed + mset rest'" by simp
      from a(3) rest' show "subseq rest' (it3 # rest)" by simp
      from a(4) show "absorbedInTurn ndebug G st (it2, absorbed)" .
      from a(5) rest' unsat show "\<forall>y\<in>set rest'. passedOver G (it2, absorbed) y"
        by (auto intro: passedOver_first)
    qed
  qed
qed

lemma mergePairs_groups:
  "mergePairs ndebug G st ts = Inr merged \<Longrightarrow>
     \<exists>groups. merged = map (mergedGroup G) groups \<and>
        mset ts = mset (concat (map members groups)) \<and>
        subseq (map fst groups) ts \<and>
        (\<forall>grp\<in>set groups. absorbedInTurn ndebug G st grp) \<and>
        (\<forall>i<length groups. \<forall>y\<in>set (concat (map members (drop (Suc i) groups))).
            passedOver G (groups ! i) y)"
proof (induction ndebug G st ts arbitrary: merged rule: mergePairs.induct)
  case (1 ndebug G st)
  then show ?case by simp
next
  case (2 ndebug G st it2 rest)
  from "2.prems" obtain it2' rest' merged' where
    inner: "mergeInto ndebug G st it2 rest = Inr (it2', rest')"
    and outer: "mergePairs ndebug G st rest' = Inr merged'"
    and merged: "merged = it2' # merged'"
    by (auto split: sum.splits)
  from mergeInto_group [OF inner] obtain absorbed where
    a: "it2' = mergedGroup G (it2, absorbed)"
    "mset rest = mset absorbed + mset rest'"
    "subseq rest' rest"
    "absorbedInTurn ndebug G st (it2, absorbed)"
    "\<forall>y\<in>set rest'. passedOver G (it2, absorbed) y"
    by blast
  from "2.IH" [OF inner refl outer] obtain groups where
    g: "merged' = map (mergedGroup G) groups"
    "mset rest' = mset (concat (map members groups))"
    "subseq (map fst groups) rest'"
    "\<forall>grp\<in>set groups. absorbedInTurn ndebug G st grp"
    "\<forall>i<length groups. \<forall>y\<in>set (concat (map members (drop (Suc i) groups))).
        passedOver G (groups ! i) y"
    by blast
  from g(2) have same: "set (concat (map members groups)) = set rest'"
    by (metis set_mset_mset)
  show ?case
  proof (intro exI [of _ "(it2, absorbed) # groups"] conjI)
    from merged a(1) g(1) show "merged = map (mergedGroup G) ((it2, absorbed) # groups)" by simp
    from a(2) g(2) show "mset (it2 # rest) = mset (concat (map members ((it2, absorbed) # groups)))"
      by (simp add: members_def)
    from g(3) a(3) have "subseq (map fst groups) rest" by (rule subseq_order.trans)
    then show "subseq (map fst ((it2, absorbed) # groups)) (it2 # rest)" by simp
    from a(4) g(4) show "\<forall>grp\<in>set ((it2, absorbed) # groups). absorbedInTurn ndebug G st grp"
      by simp
    show "\<forall>i<length ((it2, absorbed) # groups).
        \<forall>y\<in>set (concat (map members (drop (Suc i) ((it2, absorbed) # groups)))).
          passedOver G (((it2, absorbed) # groups) ! i) y"
    proof (intro allI impI)
      fix i assume "i < length ((it2, absorbed) # groups)"
      then show "\<forall>y\<in>set (concat (map members (drop (Suc i) ((it2, absorbed) # groups)))).
          passedOver G (((it2, absorbed) # groups) ! i) y"
      proof (cases i)
        case 0
        with a(5) same show ?thesis by simp
      next
        case (Suc i')
        with \<open>i < length ((it2, absorbed) # groups)\<close> g(5) show ?thesis by simp
      qed
    qed
  qed
qed

lemma overlap_kept_by_merges:
  assumes "hullKeepsOverlap G" and "satisfiable G (conjunction G (guard l) h)"
  shows "satisfiable G (conjunction G (guard (mergedGroup G (l, xs))) h)"
  using assms(2)
proof (induction xs arbitrary: l)
  case Nil
  then show ?case by simp
next
  case (Cons x xs)
  from assms(1) Cons.prems
  have "satisfiable G (conjunction G (guard (mergePair G l x)) h)"
    by (simp add: hullKeepsOverlap_def mergePair_guard)
  from Cons.IH [OF this] show ?case by simp
qed

lemma passedOver_disjoint:
  assumes "hullKeepsOverlap G" and "passedOver G grp y"
  shows "\<not> satisfiable G (conjunction G (guard (fst grp)) (guard y))"
proof
  assume "satisfiable G (conjunction G (guard (fst grp)) (guard y))"
  from overlap_kept_by_merges [OF assms(1) this]
  have "satisfiable G (conjunction G (guard (mergedGroup G (fst grp, take k (snd grp)))) (guard y))" for k .
  with assms(2) show False by (auto simp: passedOver_iff)
qed

lemma hullKeepsOverlap_spec: "hullKeepsOverlap specGuardOps"
  unfolding hullKeepsOverlap_def
proof (intro allI impI)
  fix g g' h
  assume "satisfiable specGuardOps (conjunction specGuardOps g h)"
  then obtain v where "satisfies v (specConjunction g h)"
    by (auto simp: specGuardOps_def specSatisfiable_iff)
  then have g: "satisfies v g" and h: "satisfies v h"
    by (simp_all add: specConjunction_iff)
  from specUnionHull_sound [of g "[g, g']" v] g have "satisfies v (specUnionHull [g, g'])" by simp
  with h have "satisfies v (specConjunction (specUnionHull [g, g']) h)"
    by (simp add: specConjunction_iff)
  then show "satisfiable specGuardOps (conjunction specGuardOps (unionHull specGuardOps [g, g']) h)"
    by (auto simp: specGuardOps_def specSatisfiable_iff)
qed

lemma passedOver_pairs:
  assumes "\<forall>i<length groups. \<forall>y\<in>set (concat (map members (drop (Suc i) groups))).
            passedOver G (groups ! i) y"
    and "i < j" and "j < length groups" and "y \<in> set (members (groups ! j))"
  shows "passedOver G (groups ! i) y"
proof -
  from assms(2,3) have "groups ! j = drop (Suc i) groups ! (j - Suc i)" by simp
  moreover from assms(2,3) have "j - Suc i < length (drop (Suc i) groups)" by simp
  ultimately have "groups ! j \<in> set (drop (Suc i) groups)" by (metis nth_mem)
  with assms(4) have y: "y \<in> set (concat (map members (drop (Suc i) groups)))" by auto
  from assms(2,3) have "i < length groups" by simp
  with assms(1) have "\<forall>y\<in>set (concat (map members (drop (Suc i) groups))).
      passedOver G (groups ! i) y" by blast
  with y show ?thesis by blast
qed

lemma mergeTransitions_groups:
  assumes "mergeTransitions ndebug G st transitions = Inr merged"
  shows "\<exists>groups. merged = map (mergedGroup G) groups \<and>
        mset (removeWeaker G [] transitions) = mset (concat (map members groups)) \<and>
        subseq (map fst groups) (removeWeaker G [] transitions) \<and>
        (\<forall>grp\<in>set groups. absorbedInTurn ndebug G st grp) \<and>
        (\<forall>i j. i < j \<longrightarrow> j < length groups \<longrightarrow>
           (\<forall>y\<in>set (members (groups ! j)).
              passedOver G (groups ! i) y \<and>
              (hullKeepsOverlap G \<longrightarrow>
                 \<not> satisfiable G (conjunction G (guard (fst (groups ! i))) (guard y)))))"
proof -
  from assms have "mergePairs ndebug G st (removeWeaker G [] transitions) = Inr merged"
    by (simp add: mergeTransitions_def)
  from mergePairs_groups [OF this] obtain groups where
    g: "merged = map (mergedGroup G) groups"
    "mset (removeWeaker G [] transitions) = mset (concat (map members groups))"
    "subseq (map fst groups) (removeWeaker G [] transitions)"
    "\<forall>grp\<in>set groups. absorbedInTurn ndebug G st grp"
    "\<forall>i<length groups. \<forall>y\<in>set (concat (map members (drop (Suc i) groups))).
        passedOver G (groups ! i) y"
    by blast
  have "passedOver G (groups ! i) y \<and>
      (hullKeepsOverlap G \<longrightarrow> \<not> satisfiable G (conjunction G (guard (fst (groups ! i))) (guard y)))"
    if "i < j" "j < length groups" "y \<in> set (members (groups ! j))" for i j y
  proof -
    from passedOver_pairs [OF g(5) that] have p: "passedOver G (groups ! i) y" .
    show ?thesis
    proof (intro conjI impI)
      show "passedOver G (groups ! i) y" by (rule p)
    next
      assume "hullKeepsOverlap G"
      then show "\<not> satisfiable G (conjunction G (guard (fst (groups ! i))) (guard y))"
        using p by (rule passedOver_disjoint)
    qed
  qed
  with g(1-4) show ?thesis by blast
qed

lemma mergeInto_firstFit:
  "mergeInto ndebug G st it2 rest = Inr (it2', rest') \<Longrightarrow>
     foldl (firstFit G) (it2 # cur) rest = it2' # foldl (firstFit G) cur rest'"
proof (induction rest arbitrary: it2 cur rest')
  case Nil
  then show ?case by simp
next
  case (Cons it3 rest)
  show ?case
  proof (cases "satisfiable G (conjunction G (guard it2) (guard it3))")
    case True
    with Cons.prems have "mergeInto ndebug G st (mergePair G it2 it3) rest = Inr (it2', rest')"
      by (simp split: if_splits)
    from Cons.IH [OF this, of cur] True show ?thesis by simp
  next
    case False
    with Cons.prems obtain r where r: "mergeInto ndebug G st it2 rest = Inr (it2', r)"
      and rest': "rest' = it3 # r"
      by (auto split: sum.splits)
    from Cons.IH [OF r, of "firstFit G cur it3"] False rest' show ?thesis by simp
  qed
qed

lemma mergePairs_firstFit:
  "mergePairs ndebug G st ts = Inr merged \<Longrightarrow> merged = foldl (firstFit G) [] ts"
proof (induction ndebug G st ts arbitrary: merged rule: mergePairs.induct)
  case (1 ndebug G st)
  then show ?case by simp
next
  case (2 ndebug G st it2 rest)
  from "2.prems" obtain it2' rest' merged' where
    into: "mergeInto ndebug G st it2 rest = Inr (it2', rest')"
    and pairs: "mergePairs ndebug G st rest' = Inr merged'"
    and merged: "merged = it2' # merged'"
    by (auto split: sum.splits)
  from "2.IH" [OF into refl pairs] have "merged' = foldl (firstFit G) [] rest'" .
  with mergeInto_firstFit [OF into, of "[]"] merged show ?case by simp
qed

lemma mergeActions_entries:
  "mergeActions ndebug G st actions = Inr actions' \<Longrightarrow>
     list_all2 (\<lambda>entry entry'. fst entry' = fst entry \<and>
                  mergeTransitions ndebug G st (snd entry) = Inr (snd entry')) actions actions'"
proof (induction actions arbitrary: actions')
  case Nil
  then show ?case by simp
next
  case (Cons a actions)
  obtain action transitions where a: "a = (action, transitions)" by (cases a)
  from Cons.prems a obtain ts' rest' where ts': "mergeTransitions ndebug G st transitions = Inr ts'"
    and rest': "mergeActions ndebug G st actions = Inr rest'"
    and eq: "actions' = (action, ts') # rest'"
    by (auto split: sum.splits)
  from Cons.IH [OF rest'] a ts' eq show ?case by simp
qed

lemma mergeNondeterministicBranching_entries:
  "mergeNondeterministicBranching ndebug G st this = Inr this' \<Longrightarrow>
     isMatch this' = isMatch this \<and>
     list_all2 (\<lambda>entry entry'. fst entry' = fst entry \<and>
                  mergeTransitions ndebug G st (snd entry) = Inr (snd entry')) (next' this) (next' this')"
  by (auto simp: mergeNondeterministicBranching_def split: sum.splits dest: mergeActions_entries)

text \<open>
  Claim C2, as the code has it. For every action, the second loop takes the transitions
  left by the first loop in their order and merges each into the first of the transitions
  kept before it whose guard, as the merges made into it so far have left it, is jointly
  satisfiable with its guard (the targets agreeing in \<^verbatim>\<open>isMatch\<close>, unless assertions
  are compiled out); a transition for which there is none is kept. The transition merged
  into another is removed, and the other gets as guard the union hull of the two guards
  and as target and reset map those of the removed transition if that one has more
  imprecise constant assignments, and its own otherwise. So the result has one transition
  for each group of a kept transition and the transitions merged into it; every
  transition of a later group was compared with each earlier group and its guard found
  not jointly satisfiable with the guard the group had then, and where the union hull
  keeps what a guard overlaps, as it does for the guards of the specification, its guard
  is not jointly satisfiable with the guard the earlier group started from. When two
  transitions with jointly satisfiable guards are all that the first loop leaves, exactly
  the merged transition remains; for the guards \<open>x \<le> 2\<close> and \<open>1 \<le> x \<le> 3\<close> to one
  target that is one transition with the guard \<open>x \<le> 3\<close>. The operation does this for
  every action: where it returns, the state has the same actions, each with the result of
  the two loops on its transitions.
\<close>

theorem merge_is_first_fit_grouping:
  "(mergeTransitions ndebug G st transitions = Inr merged \<longrightarrow>
      merged = foldl (firstFit G) [] (removeWeaker G [] transitions) \<and>
      (\<exists>groups. merged = map (mergedGroup G) groups \<and>
         mset (removeWeaker G [] transitions) = mset (concat (map members groups)) \<and>
         subseq (map fst groups) (removeWeaker G [] transitions) \<and>
         (\<forall>grp\<in>set groups. absorbedInTurn ndebug G st grp) \<and>
         (\<forall>i j. i < j \<longrightarrow> j < length groups \<longrightarrow>
            (\<forall>y\<in>set (members (groups ! j)).
               passedOver G (groups ! i) y \<and>
               (hullKeepsOverlap G \<longrightarrow>
                  \<not> satisfiable G (conjunction G (guard (fst (groups ! i))) (guard y))))))) \<and>
   (ndebug \<or> (\<forall>it2 it3. encounter ndebug G st (removeWeaker G [] transitions) (it2, it3) \<longrightarrow>
                 isMatch (st (target it2)) = isMatch (st (target it3))) \<longrightarrow>
      mergeTransitions ndebug G st transitions =
        Inr (foldl (firstFit G) [] (removeWeaker G [] transitions))) \<and>
   mergedGroup G (it2, []) = it2 \<and>
   mergedGroup G (it2, it3 # absorbed) = mergedGroup G (mergePair G it2 it3, absorbed) \<and>
   guard (mergePair G it2 it3) = unionHull G [guard it2, guard it3] \<and>
   (target (mergePair G it2 it3), resetVars (mergePair G it2 it3)) =
     (if impreciseConstantAssignSize G (resetVars it2) < impreciseConstantAssignSize G (resetVars it3)
      then (target it3, resetVars it3) else (target it2, resetVars it2)) \<and>
   (removeWeaker G [] transitions = [it2, it3] \<longrightarrow>
    satisfiable G (conjunction G (guard it2) (guard it3)) \<longrightarrow>
    ndebug \<or> isMatch (st (target it2)) = isMatch (st (target it3)) \<longrightarrow>
      mergeTransitions ndebug G st transitions = Inr [mergePair G it2 it3]) \<and>
   hullKeepsOverlap specGuardOps \<and>
   mergeNondeterministicBranching ndebug specGuardOps st'
     \<lparr>isMatch = m, next' = [(a, [\<lparr>target = q, resetVars = r1, guard = [Le k 2]\<rparr>,
                                 \<lparr>target = q, resetVars = r2, guard = [Ge k 1, Le k 3]\<rparr>])]\<rparr> =
     Inr \<lparr>isMatch = m, next' = [(a, [\<lparr>target = q,
              resetVars = (if specImpreciseConstantAssignSize r1 < specImpreciseConstantAssignSize r2
                           then r2 else r1),
              guard = [Le k 3]\<rparr>])]\<rparr> \<and>
   (mergeNondeterministicBranching ndebug G st this = Inr this' \<longrightarrow>
      isMatch this' = isMatch this \<and>
      list_all2 (\<lambda>entry entry'. fst entry' = fst entry \<and>
                   mergeTransitions ndebug G st (snd entry) = Inr (snd entry')) (next' this) (next' this'))"
proof (intro conjI impI)
  assume r: "mergeTransitions ndebug G st transitions = Inr merged"
  then show "merged = foldl (firstFit G) [] (removeWeaker G [] transitions)"
    unfolding mergeTransitions_def by (rule mergePairs_firstFit)
  from r show "\<exists>groups. merged = map (mergedGroup G) groups \<and>
         mset (removeWeaker G [] transitions) = mset (concat (map members groups)) \<and>
         subseq (map fst groups) (removeWeaker G [] transitions) \<and>
         (\<forall>grp\<in>set groups. absorbedInTurn ndebug G st grp) \<and>
         (\<forall>i j. i < j \<longrightarrow> j < length groups \<longrightarrow>
            (\<forall>y\<in>set (members (groups ! j)).
               passedOver G (groups ! i) y \<and>
               (hullKeepsOverlap G \<longrightarrow>
                  \<not> satisfiable G (conjunction G (guard (fst (groups ! i))) (guard y)))))"
    by (rule mergeTransitions_groups)
next
  assume ok: "ndebug \<or> (\<forall>it2 it3. encounter ndebug G st (removeWeaker G [] transitions) (it2, it3) \<longrightarrow>
                 isMatch (st (target it2)) = isMatch (st (target it3)))"
  show "mergeTransitions ndebug G st transitions =
        Inr (foldl (firstFit G) [] (removeWeaker G [] transitions))"
  proof (cases "mergeTransitions ndebug G st transitions")
    case (Inl e)
    then have "mergeTransitions ndebug G st transitions = Inl AssertionFailed"
      by (simp add: error_is_AssertionFailed [of e])
    with ok show ?thesis unfolding mergeTransitions_abort_iff by blast
  next
    case (Inr merged)
    then have "merged = foldl (firstFit G) [] (removeWeaker G [] transitions)"
      unfolding mergeTransitions_def by (rule mergePairs_firstFit)
    with Inr show ?thesis by simp
  qed
next
  show "mergedGroup G (it2, []) = it2" by simp
  show "mergedGroup G (it2, it3 # absorbed) = mergedGroup G (mergePair G it2 it3, absorbed)" by simp
  show "guard (mergePair G it2 it3) = unionHull G [guard it2, guard it3]"
    by (rule mergePair_guard)
  show "(target (mergePair G it2 it3), resetVars (mergePair G it2 it3)) =
     (if impreciseConstantAssignSize G (resetVars it2) < impreciseConstantAssignSize G (resetVars it3)
      then (target it3, resetVars it3) else (target it2, resetVars it2))"
    by (rule mergePair_target_resets)
  show "hullKeepsOverlap specGuardOps" by (rule hullKeepsOverlap_spec)
  show "mergeNondeterministicBranching ndebug specGuardOps st'
     \<lparr>isMatch = m, next' = [(a, [\<lparr>target = q, resetVars = r1, guard = [Le k 2]\<rparr>,
                                 \<lparr>target = q, resetVars = r2, guard = [Ge k 1, Le k 3]\<rparr>])]\<rparr> =
     Inr \<lparr>isMatch = m, next' = [(a, [\<lparr>target = q,
              resetVars = (if specImpreciseConstantAssignSize r1 < specImpreciseConstantAssignSize r2
                           then r2 else r1),
              guard = [Le k 3]\<rparr>])]\<rparr>"
    by (simp add: merge_defs specGuardOps_def specSatisfiable_def specConjunction_def specIsWeaker_def
          implied_def specUnionHull_def hullOfClock_def hullLower_def hullUpper_def lowerBound_def
          upperBound_def lowerStep_def upperStep_def nonEmptyInterval_def)
next
  assume "removeWeaker G [] transitions = [it2, it3]"
    and "satisfiable G (conjunction G (guard it2) (guard it3))"
    and "ndebug \<or> isMatch (st (target it2)) = isMatch (st (target it3))"
  then show "mergeTransitions ndebug G st transitions = Inr [mergePair G it2 it3]"
    by (auto simp: mergeTransitions_def)
next
  assume r: "mergeNondeterministicBranching ndebug G st this = Inr this'"
  from mergeNondeterministicBranching_entries [OF r]
  show "isMatch this' = isMatch this"
    and "list_all2 (\<lambda>entry entry'. fst entry' = fst entry \<and>
                   mergeTransitions ndebug G st (snd entry) = Inr (snd entry')) (next' this) (next' this')"
    by simp_all
qed

theorem merge_is_first_fit_grouping_witness:
  "mergeTransitions False specGuardOps storeEx [chainEx1, chainEx2, chainEx3] =
     Inr [\<lparr>target = 1, resetVars = [], guard = [Le 0 2]\<rparr>, chainEx2] \<and>
   removeWeaker specGuardOps [] [chainEx1, chainEx2, chainEx3] = [chainEx1, chainEx2, chainEx3] \<and>
   foldl (firstFit specGuardOps) [] [chainEx1, chainEx2, chainEx3] =
     [\<lparr>target = 1, resetVars = [], guard = [Le 0 2]\<rparr>, chainEx2] \<and>
   mergeTransitions True specGuardOps storeEx [chainEx1, chainEx2, chainEx3] =
     Inr (foldl (firstFit specGuardOps) [] [chainEx1, chainEx2, chainEx3]) \<and>
   mergedGroup specGuardOps (chainEx1, [chainEx3]) = \<lparr>target = 1, resetVars = [], guard = [Le 0 2]\<rparr> \<and>
   mergedGroup specGuardOps (chainEx2, []) = chainEx2 \<and>
   absorbedInTurn False specGuardOps storeEx (chainEx1, [chainEx3]) \<and>
   passedOver specGuardOps (chainEx1, [chainEx3]) chainEx2 \<and>
   hullKeepsOverlap specGuardOps \<and>
   \<not> satisfiable specGuardOps (conjunction specGuardOps (guard chainEx1) (guard chainEx2)) \<and>
   removeWeaker specGuardOps [] [overlapEx1, overlapEx2] = [overlapEx1, overlapEx2] \<and>
   satisfiable specGuardOps (conjunction specGuardOps (guard overlapEx1) (guard overlapEx2)) \<and>
   isMatch (storeEx (target overlapEx1)) = isMatch (storeEx (target overlapEx2)) \<and>
   mergeTransitions False specGuardOps storeEx [overlapEx1, overlapEx2] =
     Inr [mergePair specGuardOps overlapEx1 overlapEx2]"
proof -
  have unsat: "\<not> satisfiable specGuardOps (conjunction specGuardOps (guard chainEx1) (guard chainEx2))"
    by (simp add: merge_ex_defs spec_guard_defs)
  then have po: "passedOver specGuardOps (chainEx1, [chainEx3]) chainEx2"
    by (rule passedOver_first)
  have ab: "absorbedInTurn False specGuardOps storeEx (chainEx1, [chainEx3])"
    by (simp add: absorbedInTurn_Cons merge_ex_defs spec_guard_defs)
  have rest: "removeWeaker specGuardOps [] [overlapEx1, overlapEx2] = [overlapEx1, overlapEx2]"
    "satisfiable specGuardOps (conjunction specGuardOps (guard overlapEx1) (guard overlapEx2))"
    "isMatch (storeEx (target overlapEx1)) = isMatch (storeEx (target overlapEx2))"
    by (simp_all add: merge_ex_defs spec_guard_defs)
  from merge_is_first_fit_grouping [of False specGuardOps storeEx "[overlapEx1, overlapEx2]"
      "[mergePair specGuardOps overlapEx1 overlapEx2]" overlapEx1 overlapEx2 "[]" storeEx True
      "CHR ''a''" 1 "[]" 0 "[]"] rest
  have pair: "mergeTransitions False specGuardOps storeEx [overlapEx1, overlapEx2] =
     Inr [mergePair specGuardOps overlapEx1 overlapEx2]"
    and keeps: "hullKeepsOverlap specGuardOps"
    by blast+
  have rw: "removeWeaker specGuardOps [] [chainEx1, chainEx2, chainEx3] = [chainEx1, chainEx2, chainEx3]"
    by (simp add: merge_ex_defs spec_guard_defs)
  from merge_is_first_fit_grouping [of True specGuardOps storeEx "[chainEx1, chainEx2, chainEx3]"]
  have fit: "mergeTransitions True specGuardOps storeEx [chainEx1, chainEx2, chainEx3] =
     Inr (foldl (firstFit specGuardOps) [] [chainEx1, chainEx2, chainEx3])"
    unfolding rw by blast
  have "mergeTransitions False specGuardOps storeEx [chainEx1, chainEx2, chainEx3] =
     Inr [\<lparr>target = 1, resetVars = [], guard = [Le 0 2]\<rparr>, chainEx2]"
    "foldl (firstFit specGuardOps) [] [chainEx1, chainEx2, chainEx3] =
     [\<lparr>target = 1, resetVars = [], guard = [Le 0 2]\<rparr>, chainEx2]"
    "mergedGroup specGuardOps (chainEx1, [chainEx3]) = \<lparr>target = 1, resetVars = [], guard = [Le 0 2]\<rparr>"
    "mergedGroup specGuardOps (chainEx2, []) = chainEx2"
    by (simp_all add: merge_defs merge_ex_defs spec_guard_defs)
  with unsat po ab rest pair keeps rw fit show ?thesis by simp
qed

text \<open>
  Against claim C2 as stated: with the guards \<open>x \<le> 1\<close>, \<open>2 \<le> x \<le> 3\<close> and
  \<open>1 \<le> x \<le> 2\<close>, the second and the third are jointly satisfiable, but the third is
  merged into the first and the second is left as it was; no transition has the union
  hull of the second and third guards, and the two transitions that remain overlap.
\<close>

theorem merge_leaves_overlapping_pair_counterexample:
  "mergeNondeterministicBranching False specGuardOps storeEx
     \<lparr>isMatch = True, next' = [(CHR ''a'', [chainEx1, chainEx2, chainEx3])]\<rparr> =
     Inr \<lparr>isMatch = True,
          next' = [(CHR ''a'', [\<lparr>target = 1, resetVars = [], guard = [Le 0 2]\<rparr>, chainEx2])]\<rparr> \<and>
   removeWeaker specGuardOps [] [chainEx1, chainEx2, chainEx3] = [chainEx1, chainEx2, chainEx3] \<and>
   satisfiable specGuardOps (conjunction specGuardOps (guard chainEx2) (guard chainEx3)) \<and>
   unionHull specGuardOps [guard chainEx2, guard chainEx3] = [Ge 0 1, Le 0 3] \<and>
   guard chainEx2 = [Ge 0 2, Le 0 3] \<and>
   satisfiable specGuardOps (conjunction specGuardOps [Le 0 2] (guard chainEx2)) \<and>
   \<not> deterministic specGuardOps
       \<lparr>isMatch = True,
        next' = [(CHR ''a'', [\<lparr>target = 1, resetVars = [], guard = [Le 0 2]\<rparr>, chainEx2])]\<rparr>"
  by (simp add: merge_defs merge_ex_defs deterministic_def spec_guard_defs)

text \<open>
  Claim C10. When two jointly satisfiable transitions are merged, the merged transition
  has the target and the reset map of the first if the first has at least as many
  imprecise constant assignments as the second, and those of the second if the second
  has more.
\<close>

theorem merge_tie_keeps_first:
  assumes "satisfiable G (conjunction G (guard it2) (guard it3))"
    and "ndebug \<or> isMatch (st (target it2)) = isMatch (st (target it3))"
  shows "mergePairs ndebug G st [it2, it3] = Inr [mergePair G it2 it3] \<and>
         mergeInto ndebug G st it2 (it3 # rest) = mergeInto ndebug G st (mergePair G it2 it3) rest \<and>
         (impreciseConstantAssignSize G (resetVars it3) \<le> impreciseConstantAssignSize G (resetVars it2) \<longrightarrow>
            target (mergePair G it2 it3) = target it2 \<and>
            resetVars (mergePair G it2 it3) = resetVars it2) \<and>
         (impreciseConstantAssignSize G (resetVars it2) < impreciseConstantAssignSize G (resetVars it3) \<longrightarrow>
            target (mergePair G it2 it3) = target it3 \<and>
            resetVars (mergePair G it2 it3) = resetVars it3)"
  using assms by (auto simp: mergePair_def)

theorem merge_tie_keeps_first_witness:
  "satisfiable specGuardOps (conjunction specGuardOps (guard overlapEx1) (guard overlapEx2)) \<and>
   isMatch (storeEx (target overlapEx1)) = isMatch (storeEx (target overlapEx2)) \<and>
   impreciseConstantAssignSize specGuardOps (resetVars overlapEx1) = 1 \<and>
   impreciseConstantAssignSize specGuardOps (resetVars overlapEx2) = 1 \<and>
   mergePairs False specGuardOps storeEx [overlapEx1, overlapEx2] =
     Inr [\<lparr>target = 1, resetVars = [(0, Constant (1/2))], guard = [Le 0 3]\<rparr>] \<and>
   target overlapEx2 = 4 \<and> resetVars overlapEx2 = [(0, Constant (3/2))]"
  using merge_tie_keeps_first [of specGuardOps overlapEx1 overlapEx2 False storeEx "[]"]
  by (simp add: merge_defs merge_ex_defs spec_guard_defs)

section \<open>Properties of \<^verbatim>\<open>run\<close>\<close>
















end
